theory Spec2Isabelle
  imports Main "HOL-Library.Word" "HOL-Library.Monad_Syntax"
begin

section \<open>A linked-list stack in C, over an explicit heap\<close>

text \<open>
  The program is \<^verbatim>\<open>src/stack_linked_list/source.c\<close>: a LIFO stack of opaque elements of
  \<^verbatim>\<open>data_size\<close> bytes, kept as a singly linked chain of heap nodes.

  The C code works through pointers, \<^verbatim>\<open>malloc\<close> and \<^verbatim>\<open>free\<close>, and several facts about it
  depend on which block is freed and which pointer is read afterwards. The model therefore
  keeps an explicit heap: a map from addresses to live blocks. Address \<open>0\<close> is \<^verbatim>\<open>NULL\<close>.
  Addresses and \<^verbatim>\<open>size_t\<close> are 64-bit words (an LP64 target), so \<^verbatim>\<open>size++\<close> and \<^verbatim>\<open>size--\<close>
  wrap as they do in C.

  Every function that goes through a pointer returns an \<open>option\<close>: \<open>None\<close> is
  undefined behaviour of the C program
  (a read or write through \<^verbatim>\<open>NULL\<close> or through a pointer to a block that is not live, a
  \<^verbatim>\<open>free\<close> of something that is not a live block, a \<^verbatim>\<open>memcpy\<close> beyond a block).
\<close>

subsection \<open>Data\<close>

type_synonym addr = "64 word"
type_synonym size_t = "64 word"
type_synonym byte = "8 word"

text \<open>\<^verbatim>\<open>struct StackNode { void *data; struct StackNode *next; }\<close>\<close>

record StackNode =
  n_data :: addr
  n_next :: addr

text \<open>\<^verbatim>\<open>struct Stack { size_t size; const size_t data_size; struct StackNode *head; }\<close>\<close>

record Stack =
  s_size :: size_t
  s_data_size :: size_t
  s_head :: addr

text \<open>
  A live heap block is a stack record, a node shell, or a buffer of bytes (a payload, or
  any other buffer the caller has allocated).
\<close>

datatype block = StackBlk Stack | NodeBlk StackNode | DataBlk "byte list"

type_synonym heap = "addr \<Rightarrow> block option"

subsection \<open>Memory primitives\<close>

text \<open>Reading \<^verbatim>\<open>stack->...\<close>: the pointer must be non-null and point to a live stack record.\<close>

definition get_stack :: "heap \<Rightarrow> addr \<Rightarrow> Stack option" where
  "get_stack h p =
     (if p = 0 then None
      else case h p of Some (StackBlk s) \<Rightarrow> Some s | _ \<Rightarrow> None)"

text \<open>Reading \<^verbatim>\<open>node->...\<close>: the pointer must be non-null and point to a live node shell.\<close>

definition get_node :: "heap \<Rightarrow> addr \<Rightarrow> StackNode option" where
  "get_node h p =
     (if p = 0 then None
      else case h p of Some (NodeBlk n) \<Rightarrow> Some n | _ \<Rightarrow> None)"

text \<open>
  \<^verbatim>\<open>malloc\<close> is the environment's: its result is a parameter of the model. The result is
  \<^verbatim>\<open>NULL\<close> (allocation failed) or the address of a block that was not live before.
  \<open>malloc_ok\<close> is that contract; the theorems assume it of every result they are given.
  The bytes of a fresh block are indeterminate in C; the program never reads them before
  writing them, and the model fills them with zeros.
\<close>

definition malloc_ok :: "heap \<Rightarrow> addr \<Rightarrow> bool" where
  "malloc_ok h p = (p = 0 \<or> h p = None)"

definition malloc_node :: "heap \<Rightarrow> addr \<Rightarrow> heap" where
  "malloc_node h p = (if p = 0 then h else h(p \<mapsto> NodeBlk \<lparr>n_data = 0, n_next = 0\<rparr>))"

definition malloc_data :: "heap \<Rightarrow> size_t \<Rightarrow> addr \<Rightarrow> heap" where
  "malloc_data h n p = (if p = 0 then h else h(p \<mapsto> DataBlk (replicate (unat n) 0)))"

text \<open>\<^verbatim>\<open>free(p)\<close>: nothing for \<^verbatim>\<open>NULL\<close>, undefined unless \<open>p\<close> is a live block.\<close>

definition free :: "heap \<Rightarrow> addr \<Rightarrow> heap option" where
  "free h p =
     (if p = 0 then Some h
      else if h p = None then None
      else Some (h(p := None)))"

text \<open>
  \<^verbatim>\<open>memcpy(dst, src, n)\<close>. The source pointer is only read, so it is modelled by the bytes
  readable behind it. The destination must be a live buffer of at least \<open>n\<close> bytes.
\<close>

definition memcpy :: "heap \<Rightarrow> addr \<Rightarrow> byte list \<Rightarrow> nat \<Rightarrow> heap option" where
  "memcpy h dst src n =
     (if dst = 0 then None
      else case h dst of
        Some (DataBlk bs) \<Rightarrow>
          if n \<le> length bs \<and> n \<le> length src
          then Some (h(dst \<mapsto> DataBlk (take n src @ drop n bs)))
          else None
      | _ \<Rightarrow> None)"

subsection \<open>The operations\<close>

text \<open>\<^verbatim>\<open>return !stack || !stack->head;\<close>\<close>

definition stack_is_empty :: "heap \<Rightarrow> addr \<Rightarrow> bool option" where
  "stack_is_empty h stack =
     (if stack = 0 then Some True
      else do { s \<leftarrow> get_stack h stack; Some (s_head s = 0) })"

text \<open>\<^verbatim>\<open>if (!stack_is_empty(stack)) return stack->size; return 0;\<close>\<close>

definition stack_size :: "heap \<Rightarrow> addr \<Rightarrow> size_t option" where
  "stack_size h stack = do {
     e \<leftarrow> stack_is_empty h stack;
     if \<not> e then do { s \<leftarrow> get_stack h stack; Some (s_size s) }
     else Some 0
   }"

text \<open>
  \<open>stack_allocate h stack np dp\<close>: \<open>np\<close> is what \<^verbatim>\<open>malloc(STACK_NODE_SIZE)\<close> returns and
  \<open>dp\<close> what \<^verbatim>\<open>malloc(stack->data_size)\<close> returns. Only the first result is tested.
\<close>

definition stack_allocate :: "heap \<Rightarrow> addr \<Rightarrow> addr \<Rightarrow> addr \<Rightarrow> (bool \<times> heap) option" where
  "stack_allocate h stack np dp =
     (let h1 = malloc_node h np in
      if np = 0 then Some (False, h1)
      else do {
        s \<leftarrow> get_stack h1 stack;
        n \<leftarrow> get_node h1 np;
        let h2 = h1(np \<mapsto> NodeBlk (n\<lparr>n_next := s_head s\<rparr>));
        s \<leftarrow> get_stack h2 stack;
        let h3 = malloc_data h2 (s_data_size s) dp;
        n \<leftarrow> get_node h3 np;
        let h4 = h3(np \<mapsto> NodeBlk (n\<lparr>n_data := dp\<rparr>));
        s \<leftarrow> get_stack h4 stack;
        Some (True, h4(stack \<mapsto> StackBlk (s\<lparr>s_head := np\<rparr>)))
      })"

text \<open>
  \<open>stack_initialise h data_size sp\<close>: \<open>sp\<close> is what \<^verbatim>\<open>malloc(STACK_SIZE)\<close> returns. The
  result is the returned pointer and the heap.
\<close>

definition stack_initialise :: "heap \<Rightarrow> size_t \<Rightarrow> addr \<Rightarrow> addr \<times> heap" where
  "stack_initialise h data_size sp =
     (let init = \<lparr>s_size = 0, s_data_size = data_size, s_head = 0\<rparr> in
      if sp = 0 then (0, h)
      else (sp, h(sp \<mapsto> StackBlk init)))"

text \<open>\<open>stack_emplace h stack data np dp\<close>: \<open>data\<close> is the caller's buffer, adopted as it is.\<close>

definition stack_emplace :: "heap \<Rightarrow> addr \<Rightarrow> addr \<Rightarrow> addr \<Rightarrow> addr \<Rightarrow> (bool \<times> heap) option" where
  "stack_emplace h stack data np dp =
     (if data = 0 then Some (False, h)
      else do {
        (ok, h1) \<leftarrow> stack_allocate h stack np dp;
        if \<not> ok then Some (False, h1)
        else do {
          s \<leftarrow> get_stack h1 stack;
          n \<leftarrow> get_node h1 (s_head s);
          let h2 = h1(s_head s \<mapsto> NodeBlk (n\<lparr>n_data := data\<rparr>));
          s \<leftarrow> get_stack h2 stack;
          Some (True, h2(stack \<mapsto> StackBlk (s\<lparr>s_size := s_size s + 1\<rparr>)))
        }
      })"

text \<open>
  \<open>stack_push h stack data np dp\<close>: \<open>data\<close> is \<open>None\<close> for a \<^verbatim>\<open>NULL\<close> source pointer and
  \<open>Some bs\<close> for a pointer with the bytes \<open>bs\<close> readable behind it.
\<close>

definition stack_push :: "heap \<Rightarrow> addr \<Rightarrow> byte list option \<Rightarrow> addr \<Rightarrow> addr \<Rightarrow> (bool \<times> heap) option" where
  "stack_push h stack data np dp =
     (case data of
        None \<Rightarrow> Some (False, h)
      | Some src \<Rightarrow> do {
          (ok, h1) \<leftarrow> stack_allocate h stack np dp;
          if \<not> ok then Some (False, h1)
          else do {
            s \<leftarrow> get_stack h1 stack;
            n \<leftarrow> get_node h1 (s_head s);
            h2 \<leftarrow> memcpy h1 (n_data n) src (unat (s_data_size s));
            s \<leftarrow> get_stack h2 stack;
            Some (True, h2(stack \<mapsto> StackBlk (s\<lparr>s_size := s_size s + 1\<rparr>)))
          }
        })"

definition stack_pop :: "heap \<Rightarrow> addr \<Rightarrow> (bool \<times> heap) option" where
  "stack_pop h stack = do {
     e \<leftarrow> stack_is_empty h stack;
     if e then Some (False, h)
     else do {
       s \<leftarrow> get_stack h stack;
       let temp = s_head s;
       n \<leftarrow> get_node h (s_head s);
       let h1 = h(stack \<mapsto> StackBlk (s\<lparr>s_head := n_next n\<rparr>));
       t \<leftarrow> get_node h1 temp;
       h2 \<leftarrow> free h1 (n_data t);
       h3 \<leftarrow> free h2 temp;
       s \<leftarrow> get_stack h3 stack;
       Some (True, h3(stack \<mapsto> StackBlk (s\<lparr>s_size := s_size s - 1\<rparr>)))
     }
   }"

text \<open>The result is the returned pointer: \<open>0\<close> is \<^verbatim>\<open>NULL\<close>.\<close>

definition stack_peek :: "heap \<Rightarrow> addr \<Rightarrow> addr option" where
  "stack_peek h stack = do {
     e \<leftarrow> stack_is_empty h stack;
     if e then Some 0
     else do {
       s \<leftarrow> get_stack h stack;
       n \<leftarrow> get_node h (s_head s);
       Some (n_data n)
     }
   }"

text \<open>
  One pass through the body of the loop of \<^verbatim>\<open>stack_destroy\<close>, statement by statement:
  \<^verbatim>\<open>free(stack_peek(stack)); next = stack->head->next; stack->head = stack->head->next;
  free(next); stack->size--;\<close>
\<close>

definition destroy_body :: "heap \<Rightarrow> addr \<Rightarrow> heap option" where
  "destroy_body h stack = do {
     p \<leftarrow> stack_peek h stack;
     h1 \<leftarrow> free h p;
     s \<leftarrow> get_stack h1 stack;
     n \<leftarrow> get_node h1 (s_head s);
     let next = n_next n;
     s \<leftarrow> get_stack h1 stack;
     n \<leftarrow> get_node h1 (s_head s);
     let h2 = h1(stack \<mapsto> StackBlk (s\<lparr>s_head := n_next n\<rparr>));
     h3 \<leftarrow> free h2 next;
     s \<leftarrow> get_stack h3 stack;
     Some (h3(stack \<mapsto> StackBlk (s\<lparr>s_size := s_size s - 1\<rparr>)))
   }"

text \<open>
  The loop \<^verbatim>\<open>while (!stack_is_empty(stack)) { ... }\<close> of \<^verbatim>\<open>stack_destroy\<close>. It is defined
  below as a total function; the lemmas before it give the measure of its termination
  proof: a pass that does not leave the stack empty has freed a block.
\<close>

lemma get_stack_live: "get_stack h p = Some s \<Longrightarrow> p \<noteq> 0 \<and> h p = Some (StackBlk s)"
  by (auto simp: get_stack_def split: if_splits option.splits block.splits)

lemma get_node_live: "get_node h p = Some n \<Longrightarrow> p \<noteq> 0 \<and> h p = Some (NodeBlk n)"
  by (auto simp: get_node_def split: if_splits option.splits block.splits)

lemma free_Some:
  "free h p = Some h' \<Longrightarrow> (p = 0 \<and> h' = h) \<or> (p \<noteq> 0 \<and> h p \<noteq> None \<and> h' = h(p := None))"
  by (auto simp: free_def split: if_splits)

lemma card_dom_free: "free h p = Some h' \<Longrightarrow> card (dom h') \<le> card (dom h)"
  by (auto dest!: free_Some simp: card_Diff1_le)

lemma card_dom_free_less: "free h p = Some h' \<Longrightarrow> p \<noteq> 0 \<Longrightarrow> card (dom h') < card (dom h)"
  by (auto dest!: free_Some intro!: card_Diff1_less)

lemma destroy_body_measure:
  assumes "destroy_body h stack = Some h'"
  shows "2 * card (dom h') + (if stack_is_empty h' stack = Some False then 1 else 0)
           < 2 * card (dom h) + 1"
proof -
  from assms obtain p h1 s n h3 s3 where
    f1: "free h p = Some h1" and
    s: "get_stack h1 stack = Some s" and
    n: "get_node h1 (s_head s) = Some n" and
    f3: "free (h1(stack \<mapsto> StackBlk (s\<lparr>s_head := n_next n\<rparr>))) (n_next n) = Some h3" and
    s3: "get_stack h3 stack = Some s3" and
    h': "h' = h3(stack \<mapsto> StackBlk (s3\<lparr>s_size := s_size s3 - 1\<rparr>))"
    by (auto simp: destroy_body_def Let_def split: Option.bind_splits)
  let ?h2 = "h1(stack \<mapsto> StackBlk (s\<lparr>s_head := n_next n\<rparr>))"
  have d2: "dom ?h2 = dom h1" using get_stack_live[OF s] by auto
  have d': "dom h' = dom h3" using get_stack_live[OF s3] unfolding h' by auto
  have c1: "card (dom h1) \<le> card (dom h)" by (rule card_dom_free[OF f1])
  show ?thesis
  proof (cases "n_next n = 0")
    case True
    then have "h3 = ?h2" using f3 by (simp add: free_def)
    then have "s_head s3 = 0"
      using s3 True get_stack_live[OF s] by (auto simp: get_stack_def)
    then have "stack_is_empty h' stack = Some True"
      using get_stack_live[OF s3] by (simp add: stack_is_empty_def h' get_stack_def)
    moreover have "card (dom h3) \<le> card (dom ?h2)" by (rule card_dom_free[OF f3])
    ultimately show ?thesis using c1 d2 d' by simp
  next
    case False
    have "card (dom h3) < card (dom ?h2)" by (rule card_dom_free_less[OF f3 False])
    then show ?thesis using c1 d2 d' by simp
  qed
qed

function stack_destroy :: "heap \<Rightarrow> addr \<Rightarrow> heap option" where
  "stack_destroy h stack =
     (case stack_is_empty h stack of
        None \<Rightarrow> None
      | Some True \<Rightarrow> Some h
      | Some False \<Rightarrow>
          (case destroy_body h stack of
             None \<Rightarrow> None
           | Some h' \<Rightarrow> stack_destroy h' stack))"
  by pat_completeness auto
termination
proof (relation "measure (\<lambda>(h, stack).
    2 * card (dom h) + (if stack_is_empty h stack = Some False then 1 else 0))")
  show "wf (measure (\<lambda>(h, stack).
    2 * card (dom h) + (if stack_is_empty h stack = Some False then 1 else 0)))"
    by simp
next
  fix h :: heap and stack e h'
  assume "stack_is_empty h stack = Some e" "e = False" "destroy_body h stack = Some h'"
  then show "((h', stack), (h, stack)) \<in> measure (\<lambda>(h, stack).
    2 * card (dom h) + (if stack_is_empty h stack = Some False then 1 else 0))"
    using destroy_body_measure[of h stack h'] by simp
qed

declare stack_destroy.simps [simp del]

subsection \<open>Sequences of calls\<close>

text \<open>
  A caller's step is one of the four mutating operations, with the results of the
  \<^verbatim>\<open>malloc\<close> calls it makes, or the caller's own allocation of a buffer
  (\<^verbatim>\<open>Item *a = malloc(ITEM_SIZE); *a = 500;\<close> in \<^verbatim>\<open>main\<close>), which is where the
  buffers given to \<^verbatim>\<open>stack_emplace\<close> come from.
\<close>

datatype call =
    Push "byte list option" addr addr
  | Emplace addr addr addr
  | Pop
  | Destroy
  | CallerMalloc addr "byte list"

text \<open>The boolean is what the call returns (\<open>True\<close> for the two that return nothing).\<close>

fun exec :: "heap \<Rightarrow> addr \<Rightarrow> call \<Rightarrow> (bool \<times> heap) option" where
  "exec h stack (Push data np dp) = stack_push h stack data np dp"
| "exec h stack (Emplace data np dp) = stack_emplace h stack data np dp"
| "exec h stack Pop = stack_pop h stack"
| "exec h stack Destroy = map_option (Pair True) (stack_destroy h stack)"
| "exec h stack (CallerMalloc p bs) = Some (True, if p = 0 then h else h(p \<mapsto> DataBlk bs))"

fun run :: "heap \<Rightarrow> addr \<Rightarrow> call list \<Rightarrow> (bool list \<times> heap) option" where
  "run h stack [] = Some ([], h)"
| "run h stack (c # cs) = do {
     (r, h1) \<leftarrow> exec h stack c;
     (rs, h2) \<leftarrow> run h1 stack cs;
     Some (r # rs, h2)
   }"

text \<open>
  The payload pointers of the first \<open>k\<close> nodes from \<open>p\<close>, and those of the first
  \<^verbatim>\<open>size\<close> nodes of the stack: the buffers the stack owns (under the invariant below these
  are the payloads of the whole chain, lemma \<open>inv_payloads\<close>).
\<close>

fun chain_data :: "heap \<Rightarrow> addr \<Rightarrow> nat \<Rightarrow> addr list" where
  "chain_data h p 0 = []"
| "chain_data h p (Suc k) =
     (case get_node h p of
        None \<Rightarrow> []
      | Some n \<Rightarrow> n_data n # chain_data h (n_next n) k)"

definition payloads :: "heap \<Rightarrow> addr \<Rightarrow> addr list" where
  "payloads h stack =
     (case get_stack h stack of
        None \<Rightarrow> []
      | Some s \<Rightarrow> chain_data h (s_head s) (unat (s_size s)))"

definition is_data :: "heap \<Rightarrow> addr \<Rightarrow> bool" where
  "is_data h p = (p \<noteq> 0 \<and> (case h p of Some (DataBlk bs) \<Rightarrow> True | _ \<Rightarrow> False))"

text \<open>
  What the environment owes the program at a call. Every \<^verbatim>\<open>malloc\<close> result keeps the
  contract of \<^verbatim>\<open>malloc\<close>, the second one in the heap that holds the first block. A buffer
  given to \<^verbatim>\<open>stack_emplace\<close> is \<^verbatim>\<open>NULL\<close>, or a live heap buffer that the stack does not own
  already (the @warning of \<^verbatim>\<open>stack_emplace\<close>: the data is allocated in the heap and
  managed by the user).
\<close>

definition mallocs_ok :: "heap \<Rightarrow> addr \<Rightarrow> addr \<Rightarrow> bool" where
  "mallocs_ok h np dp = (malloc_ok h np \<and> malloc_ok (malloc_node h np) dp)"

definition caller_owns :: "heap \<Rightarrow> addr \<Rightarrow> addr \<Rightarrow> bool" where
  "caller_owns h stack p = (is_data h p \<and> p \<notin> set (payloads h stack))"

fun call_ok :: "heap \<Rightarrow> addr \<Rightarrow> call \<Rightarrow> bool" where
  "call_ok h stack (Push data np dp) = mallocs_ok h np dp"
| "call_ok h stack (Emplace data np dp) =
     (mallocs_ok h np dp \<and> (data = 0 \<or> caller_owns h stack data))"
| "call_ok h stack Pop = True"
| "call_ok h stack Destroy = True"
| "call_ok h stack (CallerMalloc p bs) = malloc_ok h p"

fun valid :: "heap \<Rightarrow> addr \<Rightarrow> call list \<Rightarrow> bool" where
  "valid h stack [] = True"
| "valid h stack (c # cs) =
     (call_ok h stack c \<and>
      (case exec h stack c of
         None \<Rightarrow> True
       | Some (r, h1) \<Rightarrow> valid h1 stack cs))"

subsection \<open>The chain of nodes and the invariant\<close>

text \<open>
  \<open>chain h p ns\<close>: following \<^verbatim>\<open>next\<close> from \<open>p\<close> visits exactly the live nodes at the
  addresses \<open>map fst ns\<close>, whose payload pointers are \<open>map snd ns\<close>, and then reaches
  \<^verbatim>\<open>NULL\<close>.
\<close>

fun chain :: "heap \<Rightarrow> addr \<Rightarrow> (addr \<times> addr) list \<Rightarrow> bool" where
  "chain h p [] = (p = 0)"
| "chain h p (x # ns) =
     (p = fst x \<and>
      (case get_node h p of
         None \<Rightarrow> False
       | Some n \<Rightarrow> n_data n = snd x \<and> chain h (n_next n) ns))"

text \<open>
  \<open>stack_inv h stack ds ns\<close>: \<open>stack\<close> points to a live stack record with element size
  \<open>ds\<close>, whose chain is \<open>ns\<close> (top first) and whose \<^verbatim>\<open>size\<close> is the length of the chain;
  no node and no payload occurs twice, and every payload is a live buffer.
\<close>

definition stack_inv :: "heap \<Rightarrow> addr \<Rightarrow> size_t \<Rightarrow> (addr \<times> addr) list \<Rightarrow> bool" where
  "stack_inv h stack ds ns =
     (case get_stack h stack of
        None \<Rightarrow> False
      | Some s \<Rightarrow>
          s_size s = of_nat (length ns) \<and> s_data_size s = ds \<and>
          chain h (s_head s) ns \<and>
          distinct (map fst ns) \<and> distinct (map snd ns) \<and>
          list_all (is_data h) (map snd ns))"

text \<open>The bytes behind a pointer that \<^verbatim>\<open>stack_peek\<close> returned: nothing behind \<^verbatim>\<open>NULL\<close>.\<close>

definition load :: "heap \<Rightarrow> addr \<Rightarrow> byte list option" where
  "load h p =
     (if p = 0 then None
      else case h p of Some (DataBlk bs) \<Rightarrow> Some bs | _ \<Rightarrow> None)"

text \<open>
  \<open>peek_pop h stack n\<close>: \<open>n\<close> times, \<^verbatim>\<open>stack_peek\<close> and then \<^verbatim>\<open>stack_pop\<close>; the result lists
  what each peek pointed to and what each pop returned.
\<close>

fun peek_pop :: "heap \<Rightarrow> addr \<Rightarrow> nat \<Rightarrow> ((byte list option \<times> bool) list \<times> heap) option" where
  "peek_pop h stack 0 = Some ([], h)"
| "peek_pop h stack (Suc n) = do {
     p \<leftarrow> stack_peek h stack;
     (r, h1) \<leftarrow> stack_pop h stack;
     (vs, h2) \<leftarrow> peek_pop h1 stack n;
     Some ((load h p, r) # vs, h2)
   }"

text \<open>A push of the value \<open>v\<close>, with the results \<open>np\<close> and \<open>dp\<close> of its two \<^verbatim>\<open>malloc\<close> calls.\<close>

definition push_call :: "byte list \<times> addr \<times> addr \<Rightarrow> call" where
  "push_call p = Push (Some (fst p)) (fst (snd p)) (snd (snd p))"

text \<open>
  Sequences of pushes and pops in which every pop follows a push that it removes: \<open>n\<close> is
  the number of elements on the stack before the sequence. \<open>pushes\<close> and \<open>pops\<close> count
  the calls, and \<open>pushes_succeeded\<close> says that every push of the sequence returned true.
\<close>

fun well_nested :: "nat \<Rightarrow> call list \<Rightarrow> bool" where
  "well_nested n [] = True"
| "well_nested n (Push data np dp # cs) = well_nested (Suc n) cs"
| "well_nested n (Pop # cs) = (0 < n \<and> well_nested (n - 1) cs)"
| "well_nested n (c # cs) = False"

fun is_push :: "call \<Rightarrow> bool" where
  "is_push (Push data np dp) = True"
| "is_push c = False"

definition pushes :: "call list \<Rightarrow> nat" where
  "pushes cs = length (filter is_push cs)"

definition pops :: "call list \<Rightarrow> nat" where
  "pops cs = length (filter (\<lambda>c. c = Pop) cs)"

definition pushes_succeeded :: "call list \<Rightarrow> bool list \<Rightarrow> bool" where
  "pushes_succeeded cs rs = list_all (\<lambda>(c, r). is_push c \<longrightarrow> r) (zip cs rs)"

subsection \<open>The scenario of the demonstration program\<close>

text \<open>
  \<^verbatim>\<open>main\<close> creates a stack of 4-byte integers and pushes 500 and then 1000. The heaps
  below are the ones this leaves, with the stack record at address \<open>0x10\<close>, the nodes at
  \<open>0x20\<close> and \<open>0x40\<close> and their payloads at \<open>0x30\<close> and \<open>0x50\<close> (little-endian bytes).
  The lemmas \<open>demo_fresh_init\<close>, \<open>demo_push_one\<close> and \<open>demo_push_two\<close> below show that the
  code produces exactly these heaps.
\<close>

definition v500 :: "byte list" where
  "v500 = [0xF4, 0x01, 0, 0]"

definition v1000 :: "byte list" where
  "v1000 = [0xE8, 0x03, 0, 0]"

definition demo_fresh :: heap where
  "demo_fresh = [0x10 \<mapsto> StackBlk \<lparr>s_size = 0, s_data_size = 4, s_head = 0\<rparr>]"

definition demo_one :: heap where
  "demo_one =
     [0x10 \<mapsto> StackBlk \<lparr>s_size = 1, s_data_size = 4, s_head = 0x20\<rparr>,
      0x20 \<mapsto> NodeBlk \<lparr>n_data = 0x30, n_next = 0\<rparr>,
      0x30 \<mapsto> DataBlk v500]"

definition demo_two :: heap where
  "demo_two =
     [0x10 \<mapsto> StackBlk \<lparr>s_size = 2, s_data_size = 4, s_head = 0x40\<rparr>,
      0x20 \<mapsto> NodeBlk \<lparr>n_data = 0x30, n_next = 0\<rparr>,
      0x30 \<mapsto> DataBlk v500,
      0x40 \<mapsto> NodeBlk \<lparr>n_data = 0x50, n_next = 0x20\<rparr>,
      0x50 \<mapsto> DataBlk v1000]"

text \<open>
  A second scenario, on the stack holding 500: the caller allocates a buffer at \<open>0x60\<close>
  holding 1000 and emplaces it, as \<^verbatim>\<open>main\<close> does with \<^verbatim>\<open>stack_emplace(stack, a)\<close>. The second
  \<^verbatim>\<open>malloc\<close> of \<^verbatim>\<open>stack_allocate\<close> returns \<open>0x50\<close>, a block that \<^verbatim>\<open>stack_emplace\<close> then drops.
\<close>

definition demo_buf :: heap where
  "demo_buf = demo_one(0x60 \<mapsto> DataBlk v1000)"

definition demo_emplaced :: heap where
  "demo_emplaced =
     [0x10 \<mapsto> StackBlk \<lparr>s_size = 2, s_data_size = 4, s_head = 0x40\<rparr>,
      0x20 \<mapsto> NodeBlk \<lparr>n_data = 0x30, n_next = 0\<rparr>,
      0x30 \<mapsto> DataBlk v500,
      0x40 \<mapsto> NodeBlk \<lparr>n_data = 0x60, n_next = 0x20\<rparr>,
      0x50 \<mapsto> DataBlk [0, 0, 0, 0],
      0x60 \<mapsto> DataBlk v1000]"

text \<open>
  Then \<^verbatim>\<open>stack_pop\<close>, which frees the node \<open>0x40\<close> and the buffer \<open>0x60\<close>, and
  \<^verbatim>\<open>stack_destroy\<close> on the one element that is left. \<open>demo_leak\<close> is what \<^verbatim>\<open>stack_destroy\<close>
  leaves of \<open>demo_one\<close>.
\<close>

definition demo_popped :: heap where
  "demo_popped =
     [0x10 \<mapsto> StackBlk \<lparr>s_size = 1, s_data_size = 4, s_head = 0x20\<rparr>,
      0x20 \<mapsto> NodeBlk \<lparr>n_data = 0x30, n_next = 0\<rparr>,
      0x30 \<mapsto> DataBlk v500,
      0x50 \<mapsto> DataBlk [0, 0, 0, 0]]"

definition demo_end :: heap where
  "demo_end =
     [0x10 \<mapsto> StackBlk \<lparr>s_size = 0, s_data_size = 4, s_head = 0\<rparr>,
      0x20 \<mapsto> NodeBlk \<lparr>n_data = 0x30, n_next = 0\<rparr>,
      0x50 \<mapsto> DataBlk [0, 0, 0, 0]]"

definition demo_leak :: heap where
  "demo_leak =
     [0x10 \<mapsto> StackBlk \<lparr>s_size = 0, s_data_size = 4, s_head = 0\<rparr>,
      0x20 \<mapsto> NodeBlk \<lparr>n_data = 0x30, n_next = 0\<rparr>]"

definition demo_mixed :: "call list" where
  "demo_mixed =
     [Push (Some v500) 0x20 0x30, CallerMalloc 0x60 v1000, Emplace 0x60 0x40 0x50,
      Pop, Destroy]"

text \<open>The run that ends in \<^verbatim>\<open>stack_destroy\<close> on two elements.\<close>

definition demo_fatal :: "call list" where
  "demo_fatal = [Push (Some v500) 0x20 0x30, Push (Some v1000) 0x40 0x50, Destroy]"

definition demo_calls :: "call list" where
  "demo_calls = [Push (Some v500) 0x20 0x30, Push (Some v1000) 0x40 0x50, Pop]"

section \<open>Symbolic execution of the operations\<close>

text \<open>
  On a live stack record, and with \<^verbatim>\<open>malloc\<close> results that keep the contract, each
  operation has a closed form: the result and the heap it leaves.
\<close>

lemma allocate_eq:
  assumes "get_stack h stack = Some s" "np \<noteq> 0" "h np = None"
    "malloc_ok (malloc_node h np) dp"
  shows "stack_allocate h stack np dp =
    Some (True, (malloc_data h (s_data_size s) dp)
             (np \<mapsto> NodeBlk \<lparr>n_data = dp, n_next = s_head s\<rparr>,
              stack \<mapsto> StackBlk (s\<lparr>s_head := np\<rparr>)))"
  using assms get_stack_live[OF assms(1)]
  by (auto simp: stack_allocate_def malloc_node_def malloc_data_def malloc_ok_def
        get_stack_def get_node_def Let_def fun_eq_iff split: if_splits)

lemma push_eq:
  assumes "get_stack h stack = Some s" "mallocs_ok h np dp"
  shows "stack_push h stack (Some src) np dp =
    (if np = 0 then Some (False, h)
     else if dp = 0 \<or> length src < unat (s_data_size s) then None
     else Some (True, h(np \<mapsto> NodeBlk \<lparr>n_data = dp, n_next = s_head s\<rparr>,
                        dp \<mapsto> DataBlk (take (unat (s_data_size s)) src),
                        stack \<mapsto> StackBlk (s\<lparr>s_head := np, s_size := s_size s + 1\<rparr>))))"
  using assms get_stack_live[OF assms(1)]
  by (auto simp: stack_push_def stack_allocate_def malloc_node_def malloc_data_def
        malloc_ok_def mallocs_ok_def memcpy_def get_stack_def get_node_def Let_def
        fun_eq_iff split: if_splits)

lemma emplace_eq:
  assumes "get_stack h stack = Some s" "mallocs_ok h np dp" "data \<noteq> 0"
  shows "stack_emplace h stack data np dp =
    (if np = 0 then Some (False, h)
     else Some (True, (malloc_data h (s_data_size s) dp)
                       (np \<mapsto> NodeBlk \<lparr>n_data = data, n_next = s_head s\<rparr>,
                        stack \<mapsto> StackBlk (s\<lparr>s_head := np, s_size := s_size s + 1\<rparr>))))"
  using assms get_stack_live[OF assms(1)]
  by (auto simp: stack_emplace_def stack_allocate_def malloc_node_def malloc_data_def
        malloc_ok_def mallocs_ok_def get_stack_def get_node_def Let_def fun_eq_iff
        split: if_splits)

lemma pop_eq:
  assumes "get_stack h stack = Some s" "get_node h (s_head s) = Some n" "is_data h (n_data n)"
  shows "stack_pop h stack =
    Some (True, h(s_head s := None, n_data n := None,
                  stack \<mapsto> StackBlk (s\<lparr>s_head := n_next n, s_size := s_size s - 1\<rparr>)))"
  using assms get_stack_live[OF assms(1)] get_node_live[OF assms(2)]
  by (auto simp: stack_pop_def stack_is_empty_def free_def is_data_def
        get_stack_def get_node_def Let_def fun_eq_iff
        split: if_splits option.splits block.splits)

lemma pop_empty_eq:
  assumes "get_stack h stack = Some s" "s_head s = 0"
  shows "stack_pop h stack = Some (False, h)"
  using assms by (simp add: stack_pop_def stack_is_empty_def get_stack_live)

lemma peek_eq:
  assumes "get_stack h stack = Some s" "get_node h (s_head s) = Some n"
  shows "stack_peek h stack = Some (n_data n)"
  using assms get_stack_live[OF assms(1)] get_node_live[OF assms(2)]
  by (simp add: stack_peek_def stack_is_empty_def)

lemma peek_empty_eq:
  assumes "get_stack h stack = Some s" "s_head s = 0"
  shows "stack_peek h stack = Some 0"
  using assms by (simp add: stack_peek_def stack_is_empty_def get_stack_live)

section \<open>The chain\<close>

lemma chain_frame:
  "chain h p ns \<Longrightarrow> (\<forall>a \<in> set (map fst ns). h' a = h a) \<Longrightarrow> chain h' p ns"
proof (induction ns arbitrary: p)
  case Nil
  then show ?case by simp
next
  case (Cons x ns)
  then show ?case by (auto simp: get_node_def split: option.splits if_splits)
qed

lemma data_frame:
  "list_all (is_data h) ds \<Longrightarrow> (\<forall>d \<in> set ds. h' d = h d) \<Longrightarrow> list_all (is_data h') ds"
  by (auto simp: list_all_iff is_data_def)

lemma chain_node_live:
  "chain h p ns \<Longrightarrow> a \<in> set (map fst ns) \<Longrightarrow> a \<noteq> 0 \<and> (\<exists>n. h a = Some (NodeBlk n))"
proof (induction ns arbitrary: p)
  case Nil
  then show ?case by simp
next
  case (Cons x ns)
  then show ?case by (auto split: option.splits dest: get_node_live)
qed

lemma chain_null: "chain h 0 ns \<longleftrightarrow> ns = []"
  by (cases ns) (auto simp: get_node_def)

text \<open>
  The nodes of a chain are distinct non-null addresses, so a chain has fewer than
  \<open>2 ^ 64\<close> nodes: \<^verbatim>\<open>size\<close> cannot wrap around while it counts a chain.
\<close>

lemma chain_length_bound:
  assumes "chain h p ns" "distinct (map fst ns)"
  shows "length ns < 2 ^ 64"
proof -
  have "set (map fst ns) \<subseteq> UNIV - {0}"
    using chain_node_live[OF assms(1)] by auto
  then have "card (set (map fst ns)) \<le> card (UNIV - {0 :: addr})"
    by (intro card_mono) auto
  also have "\<dots> = 2 ^ 64 - 1"
    by (simp add: card_Diff_singleton card_word)
  finally show ?thesis
    using distinct_card[OF assms(2)] by simp
qed

section \<open>The invariant is kept\<close>


lemma chain_data_eq: "chain h p ns \<Longrightarrow> chain_data h p (length ns) = map snd ns"
  by (induction ns arbitrary: p) (auto split: option.splits)

lemma inv_unat_size:
  assumes "chain h p ns" "distinct (map fst ns)"
  shows "unat (of_nat (length ns) :: size_t) = length ns"
  using chain_length_bound[OF assms] by (simp add: unat_of_nat)

lemma inv_payloads:
  assumes "stack_inv h stack ds ns"
  shows "payloads h stack = map snd ns"
  using assms
  by (auto simp: stack_inv_def payloads_def inv_unat_size chain_data_eq split: option.splits)

lemma inv_size_zero:
  assumes "chain h p ns" "distinct (map fst ns)"
  shows "(of_nat (length ns) :: size_t) = 0 \<longleftrightarrow> ns = []"
proof
  assume "(of_nat (length ns) :: size_t) = 0"
  then have "unat (of_nat (length ns) :: size_t) = 0" by simp
  then show "ns = []" using inv_unat_size[OF assms] by simp
qed simp

lemma inv_push:
  assumes inv: "stack_inv h stack ds ns"
    and m: "mallocs_ok h np dp"
    and r: "stack_push h stack (Some src) np dp = Some (True, h')"
  shows "stack_inv h' stack ds ((np, dp) # ns) \<and> load h' dp = Some (take (unat ds) src) \<and>
           (\<forall>d \<in> set (map snd ns). h' d = h d)"
proof -
  from inv obtain s where s: "get_stack h stack = Some s"
    and sz: "s_size s = of_nat (length ns)" and ds: "s_data_size s = ds"
    and ch: "chain h (s_head s) ns"
    and d1: "distinct (map fst ns)" and d2: "distinct (map snd ns)"
    and dat: "list_all (is_data h) (map snd ns)"
    by (auto simp: stack_inv_def split: option.splits)
  note live = get_stack_live[OF s]
  from r have np: "np \<noteq> 0" and dp: "dp \<noteq> 0"
    and h': "h' = h(np \<mapsto> NodeBlk \<lparr>n_data = dp, n_next = s_head s\<rparr>,
                        dp \<mapsto> DataBlk (take (unat (s_data_size s)) src),
                        stack \<mapsto> StackBlk (s\<lparr>s_head := np, s_size := s_size s + 1\<rparr>))"
    unfolding push_eq[OF s m] by (auto split: if_splits)
  from m np dp have fr: "h np = None" "h dp = None" "dp \<noteq> np"
    by (auto simp: mallocs_ok_def malloc_ok_def malloc_node_def split: if_splits)
  have ne: "stack \<noteq> np" "stack \<noteq> dp" using live fr by auto
  have nodes: "\<forall>a \<in> set (map fst ns). h' a = h a"
  proof
    fix a assume "a \<in> set (map fst ns)"
    then obtain n where "h a = Some (NodeBlk n)" using chain_node_live[OF ch] by blast
    then have "a \<noteq> np" "a \<noteq> dp" "a \<noteq> stack" using fr live by auto
    then show "h' a = h a" by (simp add: h')
  qed
  have datas: "\<forall>d \<in> set (map snd ns). h' d = h d"
  proof
    fix d assume "d \<in> set (map snd ns)"
    then have "is_data h d" using dat by (auto simp: list_all_iff)
    then have "d \<noteq> np" "d \<noteq> dp" "d \<noteq> stack"
      using fr live by (auto simp: is_data_def)
    then show "h' d = h d" by (simp add: h')
  qed
  have "chain h' (s_head s) ns" by (rule chain_frame[OF ch nodes])
  moreover have "list_all (is_data h') (map snd ns)" by (rule data_frame[OF dat datas])
  moreover have "np \<notin> set (map fst ns)" using chain_node_live[OF ch, of np] fr by auto
  moreover have "dp \<notin> set (map snd ns)" using dat fr by (auto simp: list_all_iff is_data_def)
  ultimately show ?thesis
    using live np dp fr ne d1 d2 sz ds datas
    by (simp add: stack_inv_def get_stack_def get_node_def h' is_data_def load_def)
qed

lemma inv_emplace:
  assumes inv: "stack_inv h stack ds ns"
    and m: "mallocs_ok h np dp"
    and own: "data = 0 \<or> caller_owns h stack data"
    and r: "stack_emplace h stack data np dp = Some (True, h')"
  shows "stack_inv h' stack ds ((np, data) # ns) \<and> h' data = h data"
proof -
  from inv obtain s where s: "get_stack h stack = Some s"
    and sz: "s_size s = of_nat (length ns)" and ds: "s_data_size s = ds"
    and ch: "chain h (s_head s) ns"
    and d1: "distinct (map fst ns)" and d2: "distinct (map snd ns)"
    and dat: "list_all (is_data h) (map snd ns)"
    by (auto simp: stack_inv_def split: option.splits)
  note live = get_stack_live[OF s]
  from r have data: "data \<noteq> 0" by (auto simp: stack_emplace_def)
  from r have np: "np \<noteq> 0" 
    and h': "h' = (malloc_data h (s_data_size s) dp)
                       (np \<mapsto> NodeBlk \<lparr>n_data = data, n_next = s_head s\<rparr>,
                        stack \<mapsto> StackBlk (s\<lparr>s_head := np, s_size := s_size s + 1\<rparr>))"
    unfolding emplace_eq[OF s m data] by (auto split: if_splits)
  from own data have o: "is_data h data" "data \<notin> set (map snd ns)"
    by (auto simp: caller_owns_def inv_payloads[OF inv])
  from m np have fr: "h np = None" "dp = 0 \<or> (h dp = None \<and> dp \<noteq> np)"
    by (auto simp: mallocs_ok_def malloc_ok_def malloc_node_def split: if_splits)
  have ne: "stack \<noteq> np" using live fr by auto
  have nodes: "\<forall>a \<in> set (map fst ns). h' a = h a"
  proof
    fix a assume "a \<in> set (map fst ns)"
    then obtain n where "h a = Some (NodeBlk n)" using chain_node_live[OF ch] by blast
    then have "a \<noteq> np" "dp = 0 \<or> a \<noteq> dp" "a \<noteq> stack" using fr live by auto
    then show "h' a = h a" by (auto simp: h' malloc_data_def)
  qed
  have datas: "\<forall>d \<in> set (data # map snd ns). h' d = h d"
  proof
    fix d assume "d \<in> set (data # map snd ns)"
    then have "is_data h d" using dat o by (auto simp: list_all_iff)
    then have "d \<noteq> np" "dp = 0 \<or> d \<noteq> dp" "d \<noteq> stack"
      using fr live by (auto simp: is_data_def)
    then show "h' d = h d" by (auto simp: h' malloc_data_def)
  qed
  have "chain h' (s_head s) ns" by (rule chain_frame[OF ch nodes])
  moreover have "list_all (is_data h') (data # map snd ns)"
    by (rule data_frame[OF _ datas]) (use dat o in simp)
  moreover have "np \<notin> set (map fst ns)" using chain_node_live[OF ch, of np] fr by auto
  moreover have "get_node h' np = Some \<lparr>n_data = data, n_next = s_head s\<rparr>"
    using np ne by (simp add: get_node_def h')
  moreover have "get_stack h' stack = Some (s\<lparr>s_head := np, s_size := s_size s + 1\<rparr>)"
    using live by (simp add: get_stack_def h')
  ultimately show ?thesis
    using o d1 d2 sz ds datas
    by (simp add: stack_inv_def)
qed

lemma inv_empty:
  assumes "stack_inv h stack ds []"
  shows "\<exists>s. get_stack h stack = Some s \<and> s_head s = 0 \<and> s_size s = 0 \<and> s_data_size s = ds"
  using assms by (auto simp: stack_inv_def split: option.splits)

lemma inv_pop_empty:
  assumes "stack_inv h stack ds []"
  shows "stack_pop h stack = Some (False, h)"
  using inv_empty[OF assms] by (auto simp: pop_empty_eq)

lemma inv_pop:
  assumes inv: "stack_inv h stack ds (x # ns)"
  shows "\<exists>h'. stack_pop h stack = Some (True, h') \<and> stack_inv h' stack ds ns \<and>
           h' (fst x) = None \<and> h' (snd x) = None \<and>
           (\<forall>d \<in> set (map snd ns). h' d = h d)"
proof -
  from inv obtain s n where s: "get_stack h stack = Some s"
    and sz: "s_size s = of_nat (length (x # ns))" and ds: "s_data_size s = ds"
    and hd: "s_head s = fst x" and n: "get_node h (s_head s) = Some n"
    and nd: "n_data n = snd x" and ch: "chain h (n_next n) ns"
    and d1: "distinct (map fst (x # ns))" and d2: "distinct (map snd (x # ns))"
    and dat: "list_all (is_data h) (map snd (x # ns))"
    by (auto simp: stack_inv_def split: option.splits)
  note live = get_stack_live[OF s] and nlive = get_node_live[OF n]
  have dx: "is_data h (n_data n)" using dat nd by simp
  define h' where "h' = h(s_head s := None, n_data n := None,
      stack \<mapsto> StackBlk (s\<lparr>s_head := n_next n, s_size := s_size s - 1\<rparr>))"
  have pop: "stack_pop h stack = Some (True, h')"
    unfolding h'_def by (rule pop_eq[OF s n dx])
  have ne: "stack \<noteq> s_head s" "stack \<noteq> n_data n" "s_head s \<noteq> n_data n"
    using live nlive dx by (auto simp: is_data_def)
  have nodes: "\<forall>a \<in> set (map fst ns). h' a = h a"
  proof
    fix a assume a: "a \<in> set (map fst ns)"
    then obtain m where "h a = Some (NodeBlk m)" using chain_node_live[OF ch] by blast
    moreover have "a \<noteq> s_head s" using a d1 hd by force
    ultimately have "a \<noteq> s_head s" "a \<noteq> n_data n" "a \<noteq> stack"
      using live dx by (auto simp: is_data_def)
    then show "h' a = h a" by (simp add: h'_def)
  qed
  have datas: "\<forall>d \<in> set (map snd ns). h' d = h d"
  proof
    fix d assume d: "d \<in> set (map snd ns)"
    then have "is_data h d" using dat by (auto simp: list_all_iff)
    moreover have "d \<noteq> n_data n" using d d2 nd by force
    ultimately have "d \<noteq> s_head s" "d \<noteq> n_data n" "d \<noteq> stack"
      using live nlive by (auto simp: is_data_def)
    then show "h' d = h d" by (simp add: h'_def)
  qed
  have "chain h' (n_next n) ns" by (rule chain_frame[OF ch nodes])
  moreover have "list_all (is_data h') (map snd ns)"
    by (rule data_frame[OF _ datas]) (use dat in simp)
  moreover have "get_stack h' stack = Some (s\<lparr>s_head := n_next n, s_size := s_size s - 1\<rparr>)"
    using live by (simp add: get_stack_def h'_def)
  ultimately have "stack_inv h' stack ds ns"
    using d1 d2 sz ds by (simp add: stack_inv_def)
  moreover have "h' (fst x) = None" "h' (snd x) = None"
    using ne hd nd by (auto simp: h'_def)
  ultimately show ?thesis using pop datas by blast
qed

lemma inv_peek:
  assumes "stack_inv h stack ds (x # ns)"
  shows "stack_peek h stack = Some (snd x)"
  using assms by (auto simp: stack_inv_def peek_eq split: option.splits)

lemma inv_peek_empty:
  assumes "stack_inv h stack ds []"
  shows "stack_peek h stack = Some 0"
  using inv_empty[OF assms] by (auto simp: peek_empty_eq)

lemma inv_is_empty:
  assumes "stack_inv h stack ds ns"
  shows "stack_is_empty h stack = Some (ns = [])"
  using assms
  by (cases ns) (auto simp: stack_inv_def stack_is_empty_def get_stack_live
      split: option.splits dest: get_node_live)

lemma inv_size:
  assumes "stack_inv h stack ds ns"
  shows "stack_size h stack = Some (of_nat (length ns))"
  using assms inv_is_empty[OF assms]
  by (auto simp: stack_size_def stack_inv_def split: option.splits)

lemma inv_caller_malloc:
  assumes inv: "stack_inv h stack ds ns" and m: "malloc_ok h p"
  shows "stack_inv (if p = 0 then h else h(p \<mapsto> DataBlk bs)) stack ds ns"
proof (cases "p = 0")
  case True
  then show ?thesis using inv by simp
next
  case False
  with m have fr: "h p = None" by (simp add: malloc_ok_def)
  let ?h' = "h(p \<mapsto> DataBlk bs)"
  from inv obtain s where s: "get_stack h stack = Some s"
    and sz: "s_size s = of_nat (length ns)" and ds: "s_data_size s = ds"
    and ch: "chain h (s_head s) ns"
    and d1: "distinct (map fst ns)" and d2: "distinct (map snd ns)"
    and dat: "list_all (is_data h) (map snd ns)"
    by (auto simp: stack_inv_def split: option.splits)
  note live = get_stack_live[OF s]
  have nodes: "\<forall>a \<in> set (map fst ns). ?h' a = h a"
    using chain_node_live[OF ch] fr by fastforce
  have datas: "\<forall>d \<in> set (map snd ns). ?h' d = h d"
    using dat fr by (fastforce simp: list_all_iff is_data_def)
  have "chain ?h' (s_head s) ns" by (rule chain_frame[OF ch nodes])
  moreover have "list_all (is_data ?h') (map snd ns)" by (rule data_frame[OF dat datas])
  moreover have "get_stack ?h' stack = Some s" using live fr by (auto simp: get_stack_def)
  ultimately show ?thesis using False d1 d2 sz ds by (simp add: stack_inv_def)
qed



lemma destroy_body_eq:
  assumes "get_stack h stack = Some s" "get_node h (s_head s) = Some n" "is_data h (n_data n)"
    and "n_next n = 0 \<or> (\<exists>m. get_node h (n_next n) = Some m)"
  shows "destroy_body h stack =
    Some ((if n_next n = 0 then h(n_data n := None) else h(n_data n := None, n_next n := None))
            (stack \<mapsto> StackBlk (s\<lparr>s_head := n_next n, s_size := s_size s - 1\<rparr>)))"
  using assms get_stack_live[OF assms(1)] get_node_live[OF assms(2)]
  by (auto simp: destroy_body_def stack_peek_def stack_is_empty_def free_def is_data_def
        get_stack_def get_node_def Let_def fun_eq_iff
        split: if_splits option.splits block.splits)

lemma inv_destroy_empty:
  assumes "stack_inv h stack ds []"
  shows "stack_destroy h stack = Some h"
  using inv_is_empty[OF assms] by (simp add: stack_destroy.simps)

lemma inv_destroy_single:
  assumes inv: "stack_inv h stack ds [x]"
  shows "\<exists>h'. stack_destroy h stack = Some h' \<and> stack_inv h' stack ds [] \<and>
           h' (fst x) = h (fst x) \<and> h' (snd x) = None \<and>
           (\<forall>a. a \<noteq> snd x \<longrightarrow> a \<noteq> stack \<longrightarrow> h' a = h a)"
proof -
  from inv obtain s n where s: "get_stack h stack = Some s"
    and sz: "s_size s = 1" and ds: "s_data_size s = ds"
    and hd: "s_head s = fst x" and n: "get_node h (s_head s) = Some n"
    and nd: "n_data n = snd x" and nx: "n_next n = 0"
    and dx: "is_data h (n_data n)"
    by (auto simp: stack_inv_def split: option.splits)
  note live = get_stack_live[OF s] and nlive = get_node_live[OF n]
  define h' where "h' = h(n_data n := None,
      stack \<mapsto> StackBlk (s\<lparr>s_head := n_next n, s_size := s_size s - 1\<rparr>))"
  have body: "destroy_body h stack = Some h'"
    using destroy_body_eq[OF s n dx] nx by (simp add: h'_def)
  have ne: "stack \<noteq> s_head s" "stack \<noteq> n_data n" "s_head s \<noteq> n_data n"
    using live nlive dx by (auto simp: is_data_def)
  have e: "stack_is_empty h stack = Some False"
    using inv_is_empty[OF inv] by simp
  have inv': "stack_inv h' stack ds []"
    using live nx sz ds by (simp add: stack_inv_def get_stack_def h'_def)
  have "stack_destroy h' stack = Some h'" by (rule inv_destroy_empty[OF inv'])
  then have "stack_destroy h stack = Some h'"
    using e body by (subst stack_destroy.simps) simp
  moreover have "h' (fst x) = h (fst x)" "h' (snd x) = None"
    using ne hd nd by (auto simp: h'_def)
  moreover have "\<forall>a. a \<noteq> snd x \<longrightarrow> a \<noteq> stack \<longrightarrow> h' a = h a"
    using nd by (simp add: h'_def)
  ultimately show ?thesis using inv' by blast
qed

lemma inv_destroy_many:
  assumes inv: "stack_inv h stack ds (x # y # ns)"
  shows "stack_destroy h stack = None"
proof -
  from inv obtain s n m where s: "get_stack h stack = Some s"
    and hd: "s_head s = fst x" and n: "get_node h (s_head s) = Some n"
    and nd: "n_data n = snd x" and nx: "n_next n = fst y"
    and m: "get_node h (n_next n) = Some m"
    and dx: "is_data h (n_data n)"
    by (auto simp: stack_inv_def split: option.splits)
  note live = get_stack_live[OF s] and nlive = get_node_live[OF n] and mlive = get_node_live[OF m]
  define h' where "h' = h(n_data n := None, n_next n := None,
      stack \<mapsto> StackBlk (s\<lparr>s_head := n_next n, s_size := s_size s - 1\<rparr>))"
  have body: "destroy_body h stack = Some h'"
    using destroy_body_eq[OF s n dx] m mlive by (auto simp: h'_def)
  have e: "stack_is_empty h stack = Some False"
    using inv_is_empty[OF inv] by simp
  have ne: "stack \<noteq> n_next n" using live mlive by auto
  have e': "stack_is_empty h' stack = Some False"
    using live mlive by (simp add: stack_is_empty_def get_stack_def h'_def)
  have "get_node h' (n_next n) = None"
    using ne by (simp add: get_node_def h'_def)
  then have "stack_peek h' stack = None"
    using live e' by (simp add: stack_peek_def get_stack_def h'_def)
  then have "destroy_body h' stack = None" by (simp add: destroy_body_def)
  then have "stack_destroy h' stack = None"
    using e' by (subst stack_destroy.simps) simp
  then show ?thesis
    using e body by (subst stack_destroy.simps) simp
qed

lemma exec_inv:
  assumes "stack_inv h stack ds ns" "call_ok h stack c" "exec h stack c = Some (r, h')"
  shows "\<exists>ns'. stack_inv h' stack ds ns'"
proof (cases c)
  case (Push data np dp)
  show ?thesis
  proof (cases data)
    case None
    then show ?thesis using assms Push by (auto simp: stack_push_def)
  next
    case (Some src)
    from assms(1) obtain s where s: "get_stack h stack = Some s"
      by (auto simp: stack_inv_def split: option.splits)
    show ?thesis
    proof (cases r)
      case True
      then show ?thesis using inv_push[OF assms(1), of np dp src h'] assms Push Some by auto
    next
      case False
      then have "h' = h" using assms Push Some push_eq[OF s, of np dp src]
        by (auto split: if_splits)
      then show ?thesis using assms(1) by auto
    qed
  qed
next
  case (Emplace data np dp)
  from assms(1) obtain s where s: "get_stack h stack = Some s"
    by (auto simp: stack_inv_def split: option.splits)
  show ?thesis
  proof (cases r)
    case True
    then show ?thesis using inv_emplace[OF assms(1), of np dp data h'] assms Emplace by auto
  next
    case False
    have "h' = h"
    proof (cases "data = 0")
      case True
      then show ?thesis using assms Emplace by (simp add: stack_emplace_def)
    next
      case nz: False
      then show ?thesis using assms Emplace False emplace_eq[OF s, of np dp data]
        by (auto split: if_splits)
    qed
    then show ?thesis using assms(1) by auto
  qed
next
  case Pop
  show ?thesis
  proof (cases ns)
    case Nil
    then show ?thesis using assms Pop inv_pop_empty[of h stack ds] by auto
  next
    case (Cons x xs)
    then show ?thesis using assms Pop inv_pop[of h stack ds x xs] by auto
  qed
next
  case Destroy
  show ?thesis
  proof (cases ns)
    case Nil
    then show ?thesis using assms Destroy inv_destroy_empty[of h stack ds] by auto
  next
    case (Cons x xs)
    show ?thesis
    proof (cases xs)
      case Nil
      then show ?thesis using assms Destroy Cons inv_destroy_single[of h stack ds x] by auto
    next
      case (Cons y ys)
      then show ?thesis using assms Destroy \<open>ns = x # xs\<close> inv_destroy_many[of h stack ds x y ys] by auto
    qed
  qed
next
  case (CallerMalloc p bs)
  then show ?thesis using assms inv_caller_malloc[of h stack ds ns p bs] by auto
qed

lemma run_inv:
  "stack_inv h stack ds ns \<Longrightarrow> valid h stack cs \<Longrightarrow> run h stack cs = Some (rs, h')
     \<Longrightarrow> \<exists>ns'. stack_inv h' stack ds ns'"
proof (induction cs arbitrary: h ns rs)
  case Nil
  then show ?case by auto
next
  case (Cons c cs)
  from Cons.prems(3) obtain r h1 rs1 where
    e: "exec h stack c = Some (r, h1)" and r: "run h1 stack cs = Some (rs1, h')"
    by (auto split: Option.bind_splits)
  from Cons.prems(2) e have ok: "call_ok h stack c" and v: "valid h1 stack cs" by auto
  from exec_inv[OF Cons.prems(1) ok e] obtain ns1 where "stack_inv h1 stack ds ns1" ..
  from Cons.IH[OF this v r] show ?case .
qed

lemma init_inv:
  assumes "sp \<noteq> 0"
  shows "stack_inv (snd (stack_initialise h ds sp)) (fst (stack_initialise h ds sp)) ds []"
  using assms by (simp add: stack_initialise_def stack_inv_def get_stack_def)

section \<open>The scenario, executed\<close>

lemma demo_fresh_init: "stack_initialise Map.empty 4 0x10 = (0x10, demo_fresh)"
  by (simp add: stack_initialise_def demo_fresh_def)

lemma demo_fresh_stack:
  "get_stack demo_fresh 0x10 = Some \<lparr>s_size = 0, s_data_size = 4, s_head = 0\<rparr>"
  by (simp add: get_stack_def demo_fresh_def)

lemma demo_one_stack:
  "get_stack demo_one 0x10 = Some \<lparr>s_size = 1, s_data_size = 4, s_head = 0x20\<rparr>"
  by (simp add: get_stack_def demo_one_def)

lemma demo_two_stack:
  "get_stack demo_two 0x10 = Some \<lparr>s_size = 2, s_data_size = 4, s_head = 0x40\<rparr>"
  by (simp add: get_stack_def demo_two_def)

lemma demo_push_one:
  "stack_push demo_fresh 0x10 (Some v500) 0x20 0x30 = Some (True, demo_one)"
  by (subst push_eq[OF demo_fresh_stack])
     (auto simp: mallocs_ok_def malloc_ok_def malloc_node_def demo_fresh_def demo_one_def
        v500_def fun_eq_iff)

lemma demo_push_two:
  "stack_push demo_one 0x10 (Some v1000) 0x40 0x50 = Some (True, demo_two)"
  by (subst push_eq[OF demo_one_stack])
     (auto simp: mallocs_ok_def malloc_ok_def malloc_node_def demo_one_def demo_two_def
        v1000_def fun_eq_iff)

section \<open>Failure leaves the heap as it was\<close>

lemma allocate_False:
  "stack_allocate h stack np dp = Some (False, h') \<Longrightarrow> np = 0 \<and> h' = h"
  by (auto simp: stack_allocate_def malloc_node_def Let_def
      split: if_splits Option.bind_splits)

lemma push_False: "stack_push h stack data np dp = Some (False, h') \<Longrightarrow> h' = h"
  by (auto simp: stack_push_def split: option.splits if_splits Option.bind_splits
      dest: allocate_False)

lemma emplace_False: "stack_emplace h stack data np dp = Some (False, h') \<Longrightarrow> h' = h"
  by (auto simp: stack_emplace_def Let_def split: option.splits if_splits Option.bind_splits
      dest: allocate_False)

section \<open>The claims\<close>

text \<open>
  C10. On a null stack handle \<^verbatim>\<open>stack_pop\<close> returns false and \<^verbatim>\<open>stack_peek\<close> returns
  \<^verbatim>\<open>NULL\<close>, both through the null check of \<^verbatim>\<open>stack_is_empty\<close>, and the heap is not touched.
  This holds in every heap: the handle is never dereferenced.
\<close>

theorem null_handle_pop_peek:
  "stack_is_empty h 0 = Some True \<and> stack_pop h 0 = Some (False, h) \<and>
   stack_peek h 0 = Some 0"
  by (simp add: stack_pop_def stack_peek_def stack_is_empty_def)

text \<open>
  C7. On every stack that \<^verbatim>\<open>stack_is_empty\<close> reports empty, \<^verbatim>\<open>stack_pop\<close> returns false
  and leaves the heap unchanged and \<^verbatim>\<open>stack_peek\<close> returns \<^verbatim>\<open>NULL\<close>; neither is undefined
  behaviour. A freshly created stack is such a stack, whatever \<^verbatim>\<open>malloc\<close> returned.
\<close>

theorem empty_pop_peek:
  "(stack_is_empty h stack = Some True \<longrightarrow>
      stack_pop h stack = Some (False, h) \<and> stack_peek h stack = Some 0) \<and>
   stack_is_empty (snd (stack_initialise h0 ds sp)) (fst (stack_initialise h0 ds sp)) =
     Some True"
  by (simp add: stack_pop_def stack_peek_def stack_is_empty_def stack_initialise_def
      get_stack_def)

theorem empty_pop_peek_witness:
  "stack_is_empty demo_fresh 0x10 = Some True \<and>
   stack_pop demo_fresh 0x10 = Some (False, demo_fresh) \<and>
   stack_peek demo_fresh 0x10 = Some 0"
  using empty_pop_peek[of demo_fresh "0x10" Map.empty 4 "0x10"]
  by (simp add: stack_is_empty_def demo_fresh_stack)

text \<open>
  C8. \<^verbatim>\<open>stack_push(stack, NULL)\<close> and \<^verbatim>\<open>stack_emplace(stack, NULL)\<close> return false and leave
  the whole heap, and so the size of the stack, unchanged; this needs nothing of the
  stack, since the data pointer is tested first. Whenever \<^verbatim>\<open>stack_emplace\<close> returns false
  the heap is the one before the call: no node refers to the caller's buffer, which is
  still the caller's to free.
\<close>

theorem null_data_rejected:
  "stack_push h stack None np dp = Some (False, h) \<and>
   stack_emplace h stack 0 np dp = Some (False, h) \<and>
   (stack_emplace h stack data np' dp' = Some (False, h') \<longrightarrow> h' = h)"
proof -
  have "stack_push h stack None np dp = Some (False, h)"
    by (simp add: stack_push_def)
  moreover have "stack_emplace h stack 0 np dp = Some (False, h)"
    by (simp add: stack_emplace_def)
  ultimately show ?thesis
    using emplace_False[of h stack data np' dp' h'] by blast
qed

theorem null_data_rejected_witness:
  "stack_push demo_one 0x10 None 0x40 0x50 = Some (False, demo_one) \<and>
   stack_emplace demo_one 0x10 0 0x40 0x50 = Some (False, demo_one) \<and>
   stack_emplace demo_one 0x10 0x60 0 0 = Some (False, demo_one)"
  using null_data_rejected[of demo_one "0x10" "0x40" "0x50" "0x60" 0 0 demo_one]
  by (simp add: stack_emplace_def stack_allocate_def malloc_node_def)

lemma push_call_simp: "push_call (v, np, dp) = Push (Some v) np dp"
  by (simp add: push_call_def)

lemma pushes_inv:
  "stack_inv h stack ds ns \<Longrightarrow> valid h stack (map push_call ps) \<Longrightarrow>
   run h stack (map push_call ps) = Some (rs, h') \<Longrightarrow> list_all id rs \<Longrightarrow>
   \<forall>p \<in> set ps. length (fst p) = unat ds \<Longrightarrow>
   \<exists>ns'. stack_inv h' stack ds (ns' @ ns) \<and>
     map (load h' \<circ> snd) (ns' @ ns) = rev (map (Some \<circ> fst) ps) @ map (load h \<circ> snd) ns"
proof (induction ps arbitrary: h ns rs)
  case Nil
  then show ?case by auto
next
  case (Cons p ps)
  obtain v np dp where p: "p = (v, np, dp)" by (cases p) auto
  from Cons.prems(3) obtain r h1 rs1 where
    e: "stack_push h stack (Some v) np dp = Some (r, h1)"
    and r: "run h1 stack (map push_call ps) = Some (rs1, h')" and rs: "rs = r # rs1"
    by (auto simp: p push_call_simp split: Option.bind_splits)
  from Cons.prems(4) rs have rt: "r" and rs1: "list_all id rs1"
    by (auto simp: list_all_iff)
  from Cons.prems(2) e have ok: "mallocs_ok h np dp" and v: "valid h1 stack (map push_call ps)"
    by (auto simp: p push_call_simp)
  from Cons.prems(5) have len: "length v = unat ds" and lens: "\<forall>p \<in> set ps. length (fst p) = unat ds"
    by (auto simp: p)
  from inv_push[OF Cons.prems(1) ok e[unfolded eqTrueI[OF rt]]] len
  have inv1: "stack_inv h1 stack ds ((np, dp) # ns)"
    and ld: "load h1 dp = Some v"
    and fr: "\<forall>d \<in> set (map snd ns). h1 d = h d"
    by auto
  from Cons.IH[OF inv1 v r rs1 lens] obtain ns1 where
    inv': "stack_inv h' stack ds (ns1 @ (np, dp) # ns)" and
    c: "map (load h' \<circ> snd) (ns1 @ (np, dp) # ns) =
          rev (map (Some \<circ> fst) ps) @ map (load h1 \<circ> snd) ((np, dp) # ns)"
    by blast
  have "map (load h1 \<circ> snd) ns = map (load h \<circ> snd) ns"
    using fr by (auto simp: load_def)
  then have "map (load h' \<circ> snd) ((ns1 @ [(np, dp)]) @ ns) =
          rev (map (Some \<circ> fst) (p # ps)) @ map (load h \<circ> snd) ns"
    using c ld by (simp add: p)
  moreover have "stack_inv h' stack ds ((ns1 @ [(np, dp)]) @ ns)" using inv' by simp
  ultimately show ?case by blast
qed

lemma drain_inv:
  "stack_inv h stack ds ns \<Longrightarrow>
   \<exists>h'. peek_pop h stack (length ns) = Some (map (\<lambda>x. (load h (snd x), True)) ns, h') \<and>
        stack_inv h' stack ds []"
proof (induction ns arbitrary: h)
  case Nil
  then show ?case by auto
next
  case (Cons x ns)
  from inv_pop[OF Cons.prems] obtain h1 where
    pop: "stack_pop h stack = Some (True, h1)" and inv1: "stack_inv h1 stack ds ns"
    and fr: "\<forall>d \<in> set (map snd ns). h1 d = h d"
    by blast
  from Cons.IH[OF inv1] obtain h' where
    d: "peek_pop h1 stack (length ns) = Some (map (\<lambda>x. (load h1 (snd x), True)) ns, h')"
    and inv': "stack_inv h' stack ds []"
    by blast
  have "map (\<lambda>x. (load h1 (snd x), True)) ns = map (\<lambda>x. (load h (snd x), True)) ns"
    using fr by (auto simp: load_def)
  then show ?case
    using inv_peek[OF Cons.prems] pop d inv' by simp
qed

text \<open>
  C1. Create a stack, push \<open>p\<^sub>1 \<dots> p\<^sub>n\<close> (each of \<^verbatim>\<open>data_size\<close> bytes, each push returning
  true), then \<open>n\<close> times peek and pop: the peeks point to the bytes
  \<open>p\<^sub>n, \<dots>, p\<^sub>1\<close> in that order, every pop returns true, none of it is undefined
  behaviour, and the stack is empty at the end. \<open>ps\<close> lists each pushed value with the two
  \<^verbatim>\<open>malloc\<close> results of its push.
\<close>

theorem lifo_order:
  assumes "sp \<noteq> 0" and "stack_initialise h0 ds sp = (stack, h1)"
    and "valid h1 stack (map push_call ps)"
    and "run h1 stack (map push_call ps) = Some (rs, h2)"
    and "list_all id rs"
    and "\<forall>p \<in> set ps. length (fst p) = unat ds"
  shows "\<exists>h3. peek_pop h2 stack (length ps) =
           Some (rev (map (\<lambda>p. (Some (fst p), True)) ps), h3) \<and>
         stack_is_empty h3 stack = Some True"
proof -
  have inv1: "stack_inv h1 stack ds []"
    using init_inv[OF assms(1), of h0 ds] assms(2) by simp
  from pushes_inv[OF inv1 assms(3-6)] obtain ns where
    inv2: "stack_inv h2 stack ds ns" and
    c: "map (load h2 \<circ> snd) ns = rev (map (Some \<circ> fst) ps)"
    by auto
  from c have len: "length ns = length ps"
    by (metis length_map length_rev)
  from drain_inv[OF inv2] obtain h3 where
    d: "peek_pop h2 stack (length ns) = Some (map (\<lambda>x. (load h2 (snd x), True)) ns, h3)"
    and inv3: "stack_inv h3 stack ds []"
    by blast
  have "map (\<lambda>x. (load h2 (snd x), True)) ns = map (\<lambda>b. (b, True)) (map (load h2 \<circ> snd) ns)"
    by simp
  also have "\<dots> = rev (map (\<lambda>p. (Some (fst p), True)) ps)"
    unfolding c by (simp add: rev_map)
  finally show ?thesis
    using d len inv_is_empty[OF inv3] by auto
qed

lemma demo_mallocs:
  "mallocs_ok demo_fresh 0x20 0x30" "mallocs_ok demo_one 0x40 0x50"
  by (simp_all add: mallocs_ok_def malloc_ok_def malloc_node_def demo_fresh_def demo_one_def)

lemma demo_valid:
  "valid demo_fresh 0x10 (map push_call [(v500, 0x20, 0x30), (v1000, 0x40, 0x50)])"
  by (simp add: push_call_simp demo_push_one demo_push_two demo_mallocs)

lemma demo_run:
  "run demo_fresh 0x10 (map push_call [(v500, 0x20, 0x30), (v1000, 0x40, 0x50)]) =
     Some ([True, True], demo_two)"
  by (simp add: push_call_simp demo_push_one demo_push_two)

theorem lifo_order_witness:
  "(0x10 :: addr) \<noteq> 0 \<and> stack_initialise Map.empty 4 0x10 = (0x10, demo_fresh) \<and>
   valid demo_fresh 0x10 (map push_call [(v500, 0x20, 0x30), (v1000, 0x40, 0x50)]) \<and>
   run demo_fresh 0x10 (map push_call [(v500, 0x20, 0x30), (v1000, 0x40, 0x50)]) =
     Some ([True, True], demo_two) \<and>
   list_all id [True, True] \<and>
   length v500 = unat (4 :: size_t) \<and> length v1000 = unat (4 :: size_t) \<and>
   (\<exists>h3. peek_pop demo_two 0x10 2 = Some ([(Some v1000, True), (Some v500, True)], h3) \<and>
      stack_is_empty h3 0x10 = Some True)"
proof -
  let ?ps = "[(v500, 0x20, 0x30), (v1000, 0x40, 0x50)] :: (byte list \<times> addr \<times> addr) list"
  have a: "(0x10 :: addr) \<noteq> 0" by simp
  have t: "list_all id [True, True]" by simp
  have l: "length v500 = unat (4 :: size_t)" "length v1000 = unat (4 :: size_t)"
    by (simp_all add: v500_def v1000_def)
  then have ls: "\<forall>p \<in> set ?ps. length (fst p) = unat (4 :: size_t)" by simp
  have e1: "length ?ps = 2" by simp
  have e2: "rev (map (\<lambda>p. (Some (fst p), True)) ?ps) = [(Some v1000, True), (Some v500, True)]"
    by simp
  note c = lifo_order[OF a demo_fresh_init demo_valid demo_run t ls]
  show ?thesis
    using a demo_fresh_init demo_valid demo_run t l c[unfolded e1 e2] by blast
qed

lemma push_pop_count:
  "stack_inv h stack ds ns \<Longrightarrow> valid h stack cs \<Longrightarrow> run h stack cs = Some (rs, h') \<Longrightarrow>
   well_nested (length ns) cs \<Longrightarrow> pushes_succeeded cs rs \<Longrightarrow>
   \<exists>ns'. stack_inv h' stack ds ns' \<and> length ns' + pops cs = length ns + pushes cs \<and>
     list_all id rs"
proof (induction cs arbitrary: h ns rs)
  case Nil
  then show ?case by (auto simp: pops_def pushes_def)
next
  case (Cons c cs)
  from Cons.prems(3) obtain r h1 rs1 where
    e: "exec h stack c = Some (r, h1)" and
    r: "run h1 stack cs = Some (rs1, h')" and rs: "rs = r # rs1"
    by (auto split: Option.bind_splits)
  from Cons.prems(2) e have ok: "call_ok h stack c" and v: "valid h1 stack cs" by auto
  from Cons.prems(5) rs have ps: "is_push c \<longrightarrow> r" and ps1: "pushes_succeeded cs rs1"
    by (auto simp: pushes_succeeded_def)
  show ?case
  proof (cases c)
    case (Push data np dp)
    with ps have rt: "r" by simp
    from e Push rt obtain src where src: "data = Some src"
      by (cases data) (auto simp: stack_push_def)
    from e Push src rt have p: "stack_push h stack (Some src) np dp = Some (True, h1)" by simp
    from inv_push[OF Cons.prems(1) _ p] ok Push
    have inv1: "stack_inv h1 stack ds ((np, dp) # ns)" by simp
    from Cons.prems(4) Push have wn: "well_nested (length ((np, dp) # ns)) cs" by simp
    from Cons.IH[OF inv1 v r wn ps1] obtain ns' where
      "stack_inv h' stack ds ns'" "length ns' + pops cs = length ((np, dp) # ns) + pushes cs"
      "list_all id rs1" by blast
    then show ?thesis using Push rs rt by (auto simp: pops_def pushes_def list_all_iff)
  next
    case Pop
    with Cons.prems(4) obtain x xs where ns: "ns = x # xs" and wn: "well_nested (length xs) cs"
      by (cases ns) auto
    from inv_pop[OF Cons.prems(1)[unfolded ns]] e Pop
    have rt: "r" and inv1: "stack_inv h1 stack ds xs" by auto
    from Cons.IH[OF inv1 v r wn ps1] obtain ns' where
      "stack_inv h' stack ds ns'" "length ns' + pops cs = length xs + pushes cs"
      "list_all id rs1" by blast
    then show ?thesis using Pop rs rt ns by (auto simp: pops_def pushes_def list_all_iff)
  next
    case (Emplace data np dp)
    with Cons.prems(4) show ?thesis by simp
  next
    case Destroy
    with Cons.prems(4) show ?thesis by simp
  next
    case (CallerMalloc p bs)
    with Cons.prems(4) show ?thesis by simp
  qed
qed

lemma inv_size_exact:
  assumes "stack_inv h stack ds ns"
  shows "unat (of_nat (length ns) :: size_t) = length ns"
  using assms by (auto simp: stack_inv_def inv_unat_size split: option.splits)

text \<open>
  C4. Create a stack and run a sequence of pushes and pops in which every push returns
  true and every pop comes after a push that it can remove (\<open>well_nested\<close>). With \<open>k\<close>
  pushes and \<open>j\<close> pops, \<open>j \<le> k\<close>, every pop returns true, \<^verbatim>\<open>stack_size\<close> returns \<open>k - j\<close>
  (as a \<^verbatim>\<open>size_t\<close> that has not wrapped) and \<^verbatim>\<open>stack_is_empty\<close> returns true exactly when
  \<open>k - j = 0\<close>.
\<close>

theorem size_after_pushes_pops:
  assumes "sp \<noteq> 0" and "stack_initialise h0 ds sp = (stack, h1)"
    and "valid h1 stack cs" and "run h1 stack cs = Some (rs, h)"
    and "well_nested 0 cs" and "pushes_succeeded cs rs"
  shows "pops cs \<le> pushes cs \<and> list_all id rs \<and>
         stack_size h stack = Some (of_nat (pushes cs - pops cs)) \<and>
         unat (of_nat (pushes cs - pops cs) :: size_t) = pushes cs - pops cs \<and>
         stack_is_empty h stack = Some (pushes cs - pops cs = 0)"
proof -
  have inv1: "stack_inv h1 stack ds []"
    using init_inv[OF assms(1), of h0 ds] assms(2) by simp
  from push_pop_count[OF inv1 assms(3,4) _ assms(6)] assms(5) obtain ns where
    inv: "stack_inv h stack ds ns" and n: "length ns + pops cs = pushes cs" and
    rs: "list_all id rs"
    by auto
  from n have len: "length ns = pushes cs - pops cs" and le: "pops cs \<le> pushes cs" by auto
  show ?thesis
    using inv_size[OF inv] inv_size_exact[OF inv] inv_is_empty[OF inv] rs le
    by (simp add: len[symmetric])
qed

lemma demo_two_node:
  "get_node demo_two (s_head \<lparr>s_size = 2, s_data_size = 4, s_head = 0x40\<rparr>) =
     Some \<lparr>n_data = 0x50, n_next = 0x20\<rparr>"
  by (simp add: get_node_def demo_two_def)

lemma demo_pop_two: "stack_pop demo_two 0x10 = Some (True, demo_one)"
  by (subst pop_eq[OF demo_two_stack demo_two_node])
     (auto simp: is_data_def demo_two_def demo_one_def fun_eq_iff)

theorem size_after_pushes_pops_witness:
  "(0x10 :: addr) \<noteq> 0 \<and> stack_initialise Map.empty 4 0x10 = (0x10, demo_fresh) \<and>
   valid demo_fresh 0x10 demo_calls \<and>
   run demo_fresh 0x10 demo_calls = Some ([True, True, True], demo_one) \<and>
   well_nested 0 demo_calls \<and> pushes_succeeded demo_calls [True, True, True] \<and>
   pushes demo_calls = 2 \<and> pops demo_calls = 1 \<and>
   stack_size demo_one 0x10 = Some 1 \<and> stack_is_empty demo_one 0x10 = Some False"
proof -
  have a: "(0x10 :: addr) \<noteq> 0" by simp
  have v: "valid demo_fresh 0x10 demo_calls"
    by (simp add: demo_calls_def demo_push_one demo_push_two demo_pop_two demo_mallocs)
  have r: "run demo_fresh 0x10 demo_calls = Some ([True, True, True], demo_one)"
    by (simp add: demo_calls_def demo_push_one demo_push_two demo_pop_two)
  have w: "well_nested 0 demo_calls" by (simp add: demo_calls_def)
  have s: "pushes_succeeded demo_calls [True, True, True]"
    by (simp add: demo_calls_def pushes_succeeded_def)
  have k: "pushes demo_calls = 2" "pops demo_calls = 1"
    by (simp_all add: demo_calls_def pushes_def pops_def)
  note c = size_after_pushes_pops[OF a demo_fresh_init v r w s]
  have "stack_size demo_one 0x10 = Some 1" "stack_is_empty demo_one 0x10 = Some False"
    using c by (simp_all add: k)
  then show ?thesis using a demo_fresh_init v r w s k by blast
qed

lemma demo_buf_stack:
  "get_stack demo_buf 0x10 = Some \<lparr>s_size = 1, s_data_size = 4, s_head = 0x20\<rparr>"
  by (simp add: get_stack_def demo_buf_def demo_one_def)

lemma demo_buf_mallocs: "mallocs_ok demo_buf 0x40 0x50"
  by (simp add: mallocs_ok_def malloc_ok_def malloc_node_def demo_buf_def demo_one_def)

lemma zeros4: "replicate 4 (0 :: byte) = [0, 0, 0, 0]"
  by (simp add: numeral_eq_Suc)

lemma demo_emplace:
  "stack_emplace demo_buf 0x10 0x60 0x40 0x50 = Some (True, demo_emplaced)"
  by (subst emplace_eq[OF demo_buf_stack demo_buf_mallocs])
     (auto simp: malloc_data_def demo_buf_def demo_one_def demo_emplaced_def fun_eq_iff
        zeros4)

text \<open>
  C5. On a live stack record: if \<^verbatim>\<open>stack_push\<close> of a value \<open>v\<close> of \<^verbatim>\<open>data_size\<close> bytes returns
  true, \<^verbatim>\<open>stack_peek\<close> right after it returns a pointer to bytes equal to \<open>v\<close>; if
  \<^verbatim>\<open>stack_emplace\<close> of a buffer \<open>buf\<close> returns true, \<^verbatim>\<open>stack_peek\<close> right
  after it returns \<open>buf\<close> itself, and a live heap buffer still holds what it held.
\<close>

theorem peek_after_insert:
  assumes "get_stack h stack = Some s" and "mallocs_ok h np dp"
  shows "(stack_push h stack (Some v) np dp = Some (True, h') \<and>
            length v = unat (s_data_size s) \<longrightarrow>
          (\<exists>p. stack_peek h' stack = Some p \<and> load h' p = Some v)) \<and>
         (stack_emplace h stack buf np dp = Some (True, h'') \<longrightarrow>
          stack_peek h'' stack = Some buf \<and>
          (load h buf = Some bs \<longrightarrow> load h'' buf = Some bs))"
proof (rule conjI; rule impI)
  note live = get_stack_live[OF assms(1)]
  assume a: "stack_push h stack (Some v) np dp = Some (True, h') \<and>
    length v = unat (s_data_size s)"
  then have np: "np \<noteq> 0" and dp: "dp \<noteq> 0"
    and h': "h' = h(np \<mapsto> NodeBlk \<lparr>n_data = dp, n_next = s_head s\<rparr>,
                        dp \<mapsto> DataBlk (take (unat (s_data_size s)) v),
                        stack \<mapsto> StackBlk (s\<lparr>s_head := np, s_size := s_size s + 1\<rparr>))"
    unfolding push_eq[OF assms] by (auto split: if_splits)
  from assms(2) np dp have fr: "h np = None" "h dp = None" "dp \<noteq> np"
    by (auto simp: mallocs_ok_def malloc_ok_def malloc_node_def split: if_splits)
  have ne: "stack \<noteq> np" "stack \<noteq> dp" using live fr by auto
  have s': "get_stack h' stack = Some (s\<lparr>s_head := np, s_size := s_size s + 1\<rparr>)"
    using live by (simp add: get_stack_def h')
  have n': "get_node h' (s_head (s\<lparr>s_head := np, s_size := s_size s + 1\<rparr>)) =
      Some \<lparr>n_data = dp, n_next = s_head s\<rparr>"
    using np ne fr by (simp add: get_node_def h')
  have "stack_peek h' stack = Some dp" using peek_eq[OF s' n'] by simp
  moreover have "load h' dp = Some v" using a dp ne by (simp add: load_def h')
  ultimately show "\<exists>p. stack_peek h' stack = Some p \<and> load h' p = Some v" by blast
next
  note live = get_stack_live[OF assms(1)]
  assume a: "stack_emplace h stack buf np dp = Some (True, h'')"
  then have buf: "buf \<noteq> 0" by (auto simp: stack_emplace_def)
  from a have np: "np \<noteq> 0"
    and h'': "h'' = (malloc_data h (s_data_size s) dp)
                       (np \<mapsto> NodeBlk \<lparr>n_data = buf, n_next = s_head s\<rparr>,
                        stack \<mapsto> StackBlk (s\<lparr>s_head := np, s_size := s_size s + 1\<rparr>))"
    unfolding emplace_eq[OF assms buf] by (auto split: if_splits)
  from assms(2) np have fr: "h np = None" "dp = 0 \<or> (h dp = None \<and> dp \<noteq> np)"
    by (auto simp: mallocs_ok_def malloc_ok_def malloc_node_def split: if_splits)
  have ne: "stack \<noteq> np" using live fr by auto
  have s': "get_stack h'' stack = Some (s\<lparr>s_head := np, s_size := s_size s + 1\<rparr>)"
    using live by (simp add: get_stack_def h'')
  have n': "get_node h'' (s_head (s\<lparr>s_head := np, s_size := s_size s + 1\<rparr>)) =
      Some \<lparr>n_data = buf, n_next = s_head s\<rparr>"
    using np ne by (simp add: get_node_def h'')
  have "load h'' buf = Some bs" if b: "load h buf = Some bs"
  proof -
    from b have l: "h buf = Some (DataBlk bs)"
      by (auto simp: load_def split: if_splits option.splits block.splits)
    then have "buf \<noteq> np" "buf \<noteq> stack" "dp = 0 \<or> buf \<noteq> dp"
      using live fr by auto
    then have "h'' buf = h buf" by (auto simp: h'' malloc_data_def)
    then show ?thesis using l buf by (simp add: load_def)
  qed
  then show "stack_peek h'' stack = Some buf \<and>
      (load h buf = Some bs \<longrightarrow> load h'' buf = Some bs)"
    using peek_eq[OF s' n'] by simp
qed

theorem peek_after_insert_witness:
  "get_stack demo_fresh 0x10 = Some \<lparr>s_size = 0, s_data_size = 4, s_head = 0\<rparr> \<and>
   mallocs_ok demo_fresh 0x20 0x30 \<and>
   stack_push demo_fresh 0x10 (Some v500) 0x20 0x30 = Some (True, demo_one) \<and>
   length v500 = unat (4 :: size_t) \<and>
   (\<exists>p. stack_peek demo_one 0x10 = Some p \<and> load demo_one p = Some v500) \<and>
   get_stack demo_buf 0x10 = Some \<lparr>s_size = 1, s_data_size = 4, s_head = 0x20\<rparr> \<and>
   mallocs_ok demo_buf 0x40 0x50 \<and>
   stack_emplace demo_buf 0x10 0x60 0x40 0x50 = Some (True, demo_emplaced) \<and>
   load demo_buf 0x60 = Some v1000 \<and>
   stack_peek demo_emplaced 0x10 = Some 0x60 \<and> load demo_emplaced 0x60 = Some v1000"
proof -
  have l: "length v500 = unat (4 :: size_t)" by (simp add: v500_def)
  have b: "load demo_buf 0x60 = Some v1000" by (simp add: load_def demo_buf_def)
  note c1 = peek_after_insert[OF demo_fresh_stack demo_mallocs(1),
      of v500 demo_one "0x60" demo_one v1000]
  note c2 = peek_after_insert[OF demo_buf_stack demo_buf_mallocs,
      of v500 demo_buf "0x60" demo_emplaced v1000]
  have "\<exists>p. stack_peek demo_one 0x10 = Some p \<and> load demo_one p = Some v500"
    using c1 demo_push_one l by simp
  moreover have "stack_peek demo_emplaced 0x10 = Some 0x60 \<and> load demo_emplaced 0x60 = Some v1000"
    using c2 demo_emplace b by simp
  ultimately show ?thesis
    using demo_fresh_stack demo_mallocs(1) demo_push_one l demo_buf_stack demo_buf_mallocs
      demo_emplace b
    by blast
qed

lemma demo_emplaced_stack:
  "get_stack demo_emplaced 0x10 = Some \<lparr>s_size = 2, s_data_size = 4, s_head = 0x40\<rparr>"
  by (simp add: get_stack_def demo_emplaced_def)

lemma demo_emplaced_node:
  "get_node demo_emplaced (s_head \<lparr>s_size = 2, s_data_size = 4, s_head = 0x40\<rparr>) =
     Some \<lparr>n_data = 0x60, n_next = 0x20\<rparr>"
  by (simp add: get_node_def demo_emplaced_def)

lemma demo_pop_emplaced: "stack_pop demo_emplaced 0x10 = Some (True, demo_popped)"
  by (subst pop_eq[OF demo_emplaced_stack demo_emplaced_node])
     (auto simp: is_data_def demo_emplaced_def demo_popped_def fun_eq_iff)

lemma demo_popped_stack:
  "get_stack demo_popped 0x10 = Some \<lparr>s_size = 1, s_data_size = 4, s_head = 0x20\<rparr>"
  by (simp add: get_stack_def demo_popped_def)

lemma demo_popped_node:
  "get_node demo_popped (s_head \<lparr>s_size = 1, s_data_size = 4, s_head = 0x20\<rparr>) =
     Some \<lparr>n_data = 0x30, n_next = 0\<rparr>"
  by (simp add: get_node_def demo_popped_def)

lemma demo_destroy_popped: "stack_destroy demo_popped 0x10 = Some demo_end"
proof -
  have e: "stack_is_empty demo_popped 0x10 = Some False"
    by (simp add: stack_is_empty_def demo_popped_stack)
  have b: "destroy_body demo_popped 0x10 = Some demo_end"
    by (subst destroy_body_eq[OF demo_popped_stack demo_popped_node])
       (auto simp: is_data_def demo_popped_def demo_end_def fun_eq_iff)
  have e': "stack_is_empty demo_end 0x10 = Some True"
    by (simp add: stack_is_empty_def get_stack_def demo_end_def)
  have "stack_destroy demo_end 0x10 = Some demo_end"
    by (subst stack_destroy.simps) (simp add: e')
  then show ?thesis
    by (subst stack_destroy.simps) (simp add: e b)
qed

lemma demo_one_node:
  "get_node demo_one (s_head \<lparr>s_size = 1, s_data_size = 4, s_head = 0x20\<rparr>) =
     Some \<lparr>n_data = 0x30, n_next = 0\<rparr>"
  by (simp add: get_node_def demo_one_def)

lemma demo_destroy_one: "stack_destroy demo_one 0x10 = Some demo_leak"
proof -
  have e: "stack_is_empty demo_one 0x10 = Some False"
    by (simp add: stack_is_empty_def demo_one_stack)
  have b: "destroy_body demo_one 0x10 = Some demo_leak"
    by (subst destroy_body_eq[OF demo_one_stack demo_one_node])
       (auto simp: is_data_def demo_one_def demo_leak_def fun_eq_iff)
  have e': "stack_is_empty demo_leak 0x10 = Some True"
    by (simp add: stack_is_empty_def get_stack_def demo_leak_def)
  have "stack_destroy demo_leak 0x10 = Some demo_leak"
    by (subst stack_destroy.simps) (simp add: e')
  then show ?thesis
    by (subst stack_destroy.simps) (simp add: e b)
qed

lemma demo_two_inv: "stack_inv demo_two 0x10 4 [(0x40, 0x50), (0x20, 0x30)]"
  by (simp add: stack_inv_def demo_two_stack)
     (simp add: get_node_def is_data_def demo_two_def)

lemma demo_destroy_two: "stack_destroy demo_two 0x10 = None"
  by (rule inv_destroy_many[OF demo_two_inv])

lemma demo_mixed_valid: "valid demo_fresh 0x10 demo_mixed"
proof -
  have "caller_owns demo_buf 0x10 0x60"
    by (simp add: caller_owns_def payloads_def demo_buf_stack)
       (simp add: is_data_def get_node_def demo_buf_def demo_one_def)
  then show ?thesis
    by (simp add: demo_mixed_def demo_push_one demo_mallocs demo_buf_def[symmetric]
        demo_buf_mallocs demo_emplace demo_pop_emplaced demo_destroy_popped malloc_ok_def)
       (simp add: demo_one_def)
qed

lemma demo_mixed_run:
  "run demo_fresh 0x10 demo_mixed = Some ([True, True, True, True, True], demo_end)"
  by (simp add: demo_mixed_def demo_push_one demo_buf_def[symmetric]
      demo_emplace demo_pop_emplaced demo_destroy_popped)

text \<open>
  Every heap reached from \<^verbatim>\<open>stack_initialise\<close> by a run without undefined behaviour, in
  which the environment keeps its side (\<open>valid\<close>), holds a stack record with
  \<^verbatim>\<open>size == 0\<close> exactly when \<^verbatim>\<open>head == NULL\<close>; the chain from \<^verbatim>\<open>head\<close> has exactly \<^verbatim>\<open>size\<close>
  nodes; and \<^verbatim>\<open>stack_is_empty\<close> returns true exactly when \<^verbatim>\<open>stack_size\<close> returns 0. This
  covers \<^verbatim>\<open>stack_push\<close>, \<^verbatim>\<open>stack_emplace\<close> and \<^verbatim>\<open>stack_pop\<close> in full, and \<^verbatim>\<open>stack_destroy\<close> on a
  stack of at most one element only: on two or more elements it is undefined
  (\<open>inv_destroy_many\<close>).
\<close>

lemma invariant_on_defined_runs:
  assumes "sp \<noteq> 0" and "stack_initialise h0 ds sp = (stack, h1)"
    and "valid h1 stack cs" and "run h1 stack cs = Some (rs, h)"
  shows "\<exists>s. get_stack h stack = Some s \<and>
           (s_size s = 0 \<longleftrightarrow> s_head s = 0) \<and>
           (\<exists>ns. chain h (s_head s) ns \<and> length ns = unat (s_size s)) \<and>
           (stack_is_empty h stack = Some True \<longleftrightarrow> stack_size h stack = Some 0)"
proof -
  have inv1: "stack_inv h1 stack ds []"
    using init_inv[OF assms(1), of h0 ds] assms(2) by simp
  from run_inv[OF inv1 assms(3,4)] obtain ns where inv: "stack_inv h stack ds ns" ..
  then obtain s where s: "get_stack h stack = Some s"
    and sz: "s_size s = of_nat (length ns)" and ch: "chain h (s_head s) ns"
    and d: "distinct (map fst ns)"
    by (auto simp: stack_inv_def split: option.splits)
  have z: "s_size s = 0 \<longleftrightarrow> ns = []"
    unfolding sz by (rule inv_size_zero[OF ch d])
  have hd: "s_head s = 0 \<longleftrightarrow> ns = []"
    using ch chain_null[of h ns] by (cases ns) (auto split: option.splits dest: get_node_live)
  have len: "length ns = unat (s_size s)"
    unfolding sz using inv_unat_size[OF ch d] by simp
  have "stack_is_empty h stack = Some True \<longleftrightarrow> stack_size h stack = Some 0"
    using inv_is_empty[OF inv] inv_size[OF inv] z sz by simp
  then show ?thesis using s z hd ch len by auto
qed

lemma invariant_on_defined_runs_demo:
  "(0x10 :: addr) \<noteq> 0 \<and> stack_initialise Map.empty 4 0x10 = (0x10, demo_fresh) \<and>
   valid demo_fresh 0x10 demo_mixed \<and>
   run demo_fresh 0x10 demo_mixed = Some ([True, True, True, True, True], demo_end) \<and>
   (\<exists>s. get_stack demo_end 0x10 = Some s \<and>
      (s_size s = 0 \<longleftrightarrow> s_head s = 0) \<and>
      (\<exists>ns. chain demo_end (s_head s) ns \<and> length ns = unat (s_size s)) \<and>
      (stack_is_empty demo_end 0x10 = Some True \<longleftrightarrow> stack_size demo_end 0x10 = Some 0))"
proof -
  have a: "(0x10 :: addr) \<noteq> 0" by simp
  note c = invariant_on_defined_runs[OF a demo_fresh_init demo_mixed_valid demo_mixed_run]
  show ?thesis using a demo_fresh_init demo_mixed_valid demo_mixed_run c by blast
qed

lemma demo_fatal_valid: "valid demo_fresh 0x10 demo_fatal"
  by (simp add: demo_fatal_def demo_push_one demo_push_two demo_mallocs demo_destroy_two)

lemma demo_fatal_run: "run demo_fresh 0x10 demo_fatal = None"
  by (simp add: demo_fatal_def demo_push_one demo_push_two demo_destroy_two)

lemma no_chain_from_freed: "p \<noteq> 0 \<Longrightarrow> get_node h p = None \<Longrightarrow> \<not> chain h p ns"
  by (cases ns) auto

text \<open>
  C2. The claim fails on the code, by the defect of \<^verbatim>\<open>stack_destroy\<close> (the one of C6).
  Create a stack, push 500, push 1000 and call \<^verbatim>\<open>stack_destroy\<close>, with every \<^verbatim>\<open>malloc\<close> result
  in order: the run is undefined behaviour. The first pass of the loop frees the successor
  of the head and leaves a record with \<^verbatim>\<open>size = 1\<close> whose \<^verbatim>\<open>head\<close> is the freed node \<open>0x20\<close>:
  no chain of nodes starts at \<^verbatim>\<open>head\<close>, \<^verbatim>\<open>stack_is_empty\<close> returns false, and \<^verbatim>\<open>stack_peek\<close> and
  \<^verbatim>\<open>stack_pop\<close> on that state read the freed node. So \<^verbatim>\<open>stack_destroy\<close> keeps the invariant
  only on a stack of at most one element; \<open>invariant_on_defined_runs\<close> above is what holds
  of the runs that are defined.
\<close>

theorem destroy_breaks_invariant:
  "valid demo_fresh 0x10 demo_fatal \<and>
   run demo_fresh 0x10 demo_fatal = None \<and>
   (\<exists>h. destroy_body demo_two 0x10 = Some h \<and>
        get_stack h 0x10 = Some \<lparr>s_size = 1, s_data_size = 4, s_head = 0x20\<rparr> \<and>
        (\<nexists>ns. chain h 0x20 ns) \<and>
        stack_is_empty h 0x10 = Some False \<and>
        stack_peek h 0x10 = None \<and>
        stack_pop h 0x10 = None)"
proof -
  have n: "get_node demo_two (n_next \<lparr>n_data = 0x50, n_next = 0x20\<rparr>) =
      Some \<lparr>n_data = 0x30, n_next = 0\<rparr>"
    by (simp add: get_node_def demo_two_def)
  have d: "is_data demo_two (n_data \<lparr>n_data = 0x50, n_next = 0x20\<rparr>)"
    by (simp add: is_data_def demo_two_def)
  define h where "h = demo_two(0x50 := None, 0x20 := None,
      0x10 \<mapsto> StackBlk \<lparr>s_size = 1, s_data_size = 4, s_head = 0x20\<rparr>)"
  have b: "destroy_body demo_two 0x10 = Some h"
    using n by (subst destroy_body_eq[OF demo_two_stack demo_two_node d])
      (auto simp: h_def fun_eq_iff)
  have s: "get_stack h 0x10 = Some \<lparr>s_size = 1, s_data_size = 4, s_head = 0x20\<rparr>"
    by (simp add: get_stack_def h_def)
  have g: "get_node h 0x20 = None" by (simp add: get_node_def h_def)
  have c: "\<nexists>ns. chain h 0x20 ns" using no_chain_from_freed[OF _ g] by simp
  have e: "stack_is_empty h 0x10 = Some False" by (simp add: stack_is_empty_def s)
  have p: "stack_peek h 0x10 = None" by (simp add: stack_peek_def e s g)
  have q: "stack_pop h 0x10 = None" by (simp add: stack_pop_def e s g)
  show ?thesis using demo_fatal_valid demo_fatal_run b s c e p q by blast
qed

text \<open>
  C9. \<^verbatim>\<open>stack_initialise(data_size)\<close> returns \<^verbatim>\<open>NULL\<close> exactly when its \<^verbatim>\<open>malloc\<close> does;
  otherwise the new record has \<^verbatim>\<open>size = 0\<close>, \<^verbatim>\<open>head = NULL\<close> and the given \<^verbatim>\<open>data_size\<close>, and
  after any sequence of later operations the record still has that \<^verbatim>\<open>data_size\<close>. This holds
  for every \<^verbatim>\<open>data_size\<close>, the positive ones included.
\<close>

theorem data_size_fixed:
  "(sp \<noteq> 0 \<longrightarrow>
      stack_initialise h0 ds sp =
        (sp, h0(sp \<mapsto> StackBlk \<lparr>s_size = 0, s_data_size = ds, s_head = 0\<rparr>))) \<and>
   (fst (stack_initialise h0 ds sp) = 0 \<longleftrightarrow> sp = 0) \<and>
   (sp \<noteq> 0 \<and> valid (snd (stack_initialise h0 ds sp)) sp cs \<and>
    run (snd (stack_initialise h0 ds sp)) sp cs = Some (rs, h) \<longrightarrow>
      (\<exists>s. get_stack h sp = Some s \<and> s_data_size s = ds))"
proof (intro conjI impI)
  assume a: "sp \<noteq> 0 \<and> valid (snd (stack_initialise h0 ds sp)) sp cs \<and>
    run (snd (stack_initialise h0 ds sp)) sp cs = Some (rs, h)"
  then have f: "fst (stack_initialise h0 ds sp) = sp" by (simp add: stack_initialise_def)
  have "stack_inv (snd (stack_initialise h0 ds sp)) sp ds []"
    using init_inv[of sp h0 ds] a f by simp
  from run_inv[OF this] a obtain ns where "stack_inv h sp ds ns" by blast
  then show "\<exists>s. get_stack h sp = Some s \<and> s_data_size s = ds"
    by (auto simp: stack_inv_def split: option.splits)
qed (auto simp: stack_initialise_def)

theorem data_size_fixed_witness:
  "(0x10 :: addr) \<noteq> 0 \<and>
   stack_initialise Map.empty 4 0x10 =
     (0x10, [0x10 \<mapsto> StackBlk \<lparr>s_size = 0, s_data_size = 4, s_head = 0\<rparr>]) \<and>
   valid (snd (stack_initialise Map.empty 4 0x10)) 0x10 demo_mixed \<and>
   run (snd (stack_initialise Map.empty 4 0x10)) 0x10 demo_mixed =
     Some ([True, True, True, True, True], demo_end) \<and>
   (\<exists>s. get_stack demo_end 0x10 = Some s \<and> s_data_size s = 4)"
proof -
  have a: "(0x10 :: addr) \<noteq> 0" by simp
  have i: "snd (stack_initialise Map.empty 4 0x10) = demo_fresh"
    by (simp add: demo_fresh_init)
  note c = data_size_fixed[of "0x10" Map.empty 4 demo_mixed "[True, True, True, True, True]"
      demo_end]
  have v: "valid (snd (stack_initialise Map.empty 4 0x10)) 0x10 demo_mixed"
    unfolding i by (rule demo_mixed_valid)
  have r: "run (snd (stack_initialise Map.empty 4 0x10)) 0x10 demo_mixed =
     Some ([True, True, True, True, True], demo_end)"
    unfolding i by (rule demo_mixed_run)
  show ?thesis using a c v r by blast
qed

text \<open>
  C3. The claim fails on the code. \<^verbatim>\<open>stack_allocate\<close> tests only the first \<^verbatim>\<open>malloc\<close>. When the
  node is allocated and the payload is not, it returns true with \<^verbatim>\<open>head\<close> already moved to a
  node whose \<^verbatim>\<open>data\<close> is \<^verbatim>\<open>NULL\<close>, and \<^verbatim>\<open>stack_push\<close> then copies through \<^verbatim>\<open>NULL\<close>: undefined
  behaviour, not a reported failure with the stack unchanged. What does hold is
  \<open>push_False\<close> and \<open>emplace_False\<close> above: a call that returns false has left the heap as it
  was.
\<close>

theorem payload_allocation_failure:
  "stack_push demo_fresh 0x10 (Some v500) 0x20 0 = None \<and>
   (\<exists>h. stack_allocate demo_fresh 0x10 0x20 0 = Some (True, h) \<and>
        get_stack h 0x10 = Some \<lparr>s_size = 0, s_data_size = 4, s_head = 0x20\<rparr> \<and>
        get_node h 0x20 = Some \<lparr>n_data = 0, n_next = 0\<rparr>)"
proof -
  have m: "mallocs_ok demo_fresh 0x20 0"
    by (simp add: mallocs_ok_def malloc_ok_def demo_fresh_def)
  have "stack_push demo_fresh 0x10 (Some v500) 0x20 0 = None"
    by (simp add: push_eq[OF demo_fresh_stack m])
  moreover have "stack_allocate demo_fresh 0x10 0x20 0 = Some (True,
      (malloc_data demo_fresh 4 0)(0x20 \<mapsto> NodeBlk \<lparr>n_data = 0, n_next = 0\<rparr>,
         0x10 \<mapsto> StackBlk \<lparr>s_size = 0, s_data_size = 4, s_head = 0x20\<rparr>))"
    using allocate_eq[OF demo_fresh_stack, of "0x20" 0]
    by (simp add: malloc_ok_def demo_fresh_def)
  ultimately show ?thesis by (simp add: get_stack_def get_node_def)
qed

text \<open>
  C6. The claim fails on the code. Each pass of \<^verbatim>\<open>stack_destroy\<close> frees the payload of the
  head, moves \<^verbatim>\<open>head\<close> to the next node and then frees that next node, not the old head.
  On the stack of two elements the first pass leaves \<^verbatim>\<open>head\<close> pointing to the freed node at
  \<open>0x20\<close> and the old head at \<open>0x40\<close> still allocated, and the second pass reads the freed
  node: undefined behaviour. On the stack of one element the call returns, with
  \<^verbatim>\<open>size = 0\<close> and \<^verbatim>\<open>head = NULL\<close>, but the node shell at \<open>0x20\<close> is still allocated. The
  lemmas \<open>inv_destroy_single\<close> and \<open>inv_destroy_many\<close> say the same of every stack of one
  element and of two or more.
\<close>

theorem destroy_frees_wrong_node:
  "stack_destroy demo_two 0x10 = None \<and>
   stack_destroy demo_one 0x10 = Some demo_leak \<and>
   demo_leak 0x20 = Some (NodeBlk \<lparr>n_data = 0x30, n_next = 0\<rparr>) \<and>
   (\<exists>h. destroy_body demo_two 0x10 = Some h \<and>
        get_stack h 0x10 = Some \<lparr>s_size = 1, s_data_size = 4, s_head = 0x20\<rparr> \<and>
        h 0x20 = None \<and> h 0x40 = Some (NodeBlk \<lparr>n_data = 0x50, n_next = 0x20\<rparr>))"
proof -
  have n: "get_node demo_two (n_next \<lparr>n_data = 0x50, n_next = 0x20\<rparr>) =
      Some \<lparr>n_data = 0x30, n_next = 0\<rparr>"
    by (simp add: get_node_def demo_two_def)
  have d: "is_data demo_two (n_data \<lparr>n_data = 0x50, n_next = 0x20\<rparr>)"
    by (simp add: is_data_def demo_two_def)
  have "\<exists>h. destroy_body demo_two 0x10 = Some h \<and>
        get_stack h 0x10 = Some \<lparr>s_size = 1, s_data_size = 4, s_head = 0x20\<rparr> \<and>
        h 0x20 = None \<and> h 0x40 = Some (NodeBlk \<lparr>n_data = 0x50, n_next = 0x20\<rparr>)"
    using n by (subst destroy_body_eq[OF demo_two_stack demo_two_node d])
      (auto simp: get_stack_def demo_two_def)
  then show ?thesis
    using demo_destroy_two demo_destroy_one by (simp add: demo_leak_def)
qed

end
